theory Spec2Isabelle
  imports Main
begin

section \<open>The VEX file parser \<^verbatim>\<open>vexfile.py\<close>: a shallow embedding\<close>

text \<open>
  The module parses a VEX text file into a tree of ordered dictionaries
  (\<^verbatim>\<open>Vex\<close> holding \<^verbatim>\<open>Section\<close>s holding \<^verbatim>\<open>Definition\<close>s and
  \<^verbatim>\<open>Scan\<close>s holding \<^verbatim>\<open>Entry\<close>s) and writes the tree back as text.
  Python strings are modelled as \<^typ>\<open>string\<close>, every \<^typ>\<open>char\<close> standing for one
  code point below 256; every exception the code can raise is a value of \<open>error\<close>, and a
  function that can raise returns \<open>error + 'a\<close> with \<open>Inl\<close> for the exception.
\<close>

subsection \<open>Exceptions\<close>

datatype error =
    IndexError
  | AssertionError
  | AttributeError
  | ValueError string
  | UnboundLocalError
  | FileExistsError

subsection \<open>Python string primitives used by the module\<close>

text \<open>\<^verbatim>\<open>str.isspace\<close> on one code point below 256: TAB, LF, VT, FF, CR, the four
  separators FS, GS, RS, US, the space, NEL (0x85) and the no-break space (0xA0).\<close>

definition isspace :: "char \<Rightarrow> bool" where
  "isspace c = (of_char c \<in> {9, 10, 11, 12, 13, 28, 29, 30, 31, 32, 133, 160 :: nat})"

text \<open>\<^verbatim>\<open>s.strip()\<close>: leading and trailing whitespace removed.\<close>

definition strip :: "string \<Rightarrow> string" where
  "strip s = rev (dropWhile isspace (rev (dropWhile isspace s)))"

text \<open>\<^verbatim>\<open>s.split(c)\<close> for a one-character separator: never the empty list.\<close>

fun str_split :: "char \<Rightarrow> string \<Rightarrow> string list" where
  "str_split c [] = [[]]"
| "str_split c (x # xs) =
     (if x = c then [] # str_split c xs
      else (x # hd (str_split c xs)) # tl (str_split c xs))"

text \<open>\<^verbatim>\<open>sep.join(parts)\<close>.\<close>

fun str_join :: "string \<Rightarrow> string list \<Rightarrow> string" where
  "str_join sep [] = []"
| "str_join sep [p] = p"
| "str_join sep (p # q # ps) = p @ sep @ str_join sep (q # ps)"

text \<open>\<^verbatim>\<open>s.count(c)\<close> for one character.\<close>

definition str_count :: "char \<Rightarrow> string \<Rightarrow> nat" where
  "str_count c s = length (filter (\<lambda>x. x = c) s)"

text \<open>\<^verbatim>\<open>sub in s\<close>: \<open>sub\<close> occurs in \<open>s\<close> as a contiguous substring.\<close>

fun str_in :: "string \<Rightarrow> string \<Rightarrow> bool" where
  "str_in sub [] = (sub = [])"
| "str_in sub (x # xs) = (take (length sub) (x # xs) = sub \<or> str_in sub xs)"

text \<open>\<^verbatim>\<open>s.index(c)\<close>: the position of the first \<open>c\<close>; a \<^verbatim>\<open>ValueError\<close> when there is none.\<close>

definition str_index :: "char \<Rightarrow> string \<Rightarrow> error + nat" where
  "str_index c s =
     (if c \<in> set s then Inr (length (takeWhile (\<lambda>x. x \<noteq> c) s))
      else Inl (ValueError ''substring not found''))"

text \<open>The slice \<^verbatim>\<open>s[a:b]\<close> for \<open>0 \<le> a\<close> and \<open>0 \<le> b\<close>.\<close>

definition slice :: "nat \<Rightarrow> nat \<Rightarrow> string \<Rightarrow> string" where
  "slice a b s = drop a (take b s)"

text \<open>The decimal rendering of a natural number inside an f-string.\<close>

fun str_nat :: "nat \<Rightarrow> string" where
  "str_nat n =
     (if n < 10 then [char_of (48 + n)]
      else str_nat (n div 10) @ [char_of (48 + n mod 10)])"

declare str_nat.simps [simp del]

subsection \<open>EntryType and Entry\<close>

datatype EntryType = comment | parameter | variable

text \<open>The value of an entry is a \<^verbatim>\<open>str\<close> or a \<^verbatim>\<open>list\<close> of \<^verbatim>\<open>str\<close>.\<close>

datatype entry_value = Str string | StrList "string list"

record Entry =
  entry_type :: EntryType
  entry_key :: "string option"
  entry_value :: entry_value

text \<open>
  \<^verbatim>\<open>Entry.__init__(type_entry, key, value)\<close>. The \<^verbatim>\<open>type\<close> setter accepts every
  \<^verbatim>\<open>EntryType\<close> (the argument is typed here); the \<^verbatim>\<open>key\<close> setter raises for a comment
  with a key, and has no other check.
\<close>

definition Entry_init :: "EntryType \<Rightarrow> string option \<Rightarrow> entry_value \<Rightarrow> error + Entry" where
  "Entry_init type_entry a_key a_value =
     (if type_entry = comment \<and> a_key \<noteq> None
      then Inl (ValueError ''key must be None for comment entries'')
      else Inr \<lparr>entry_type = type_entry, entry_key = a_key, entry_value = a_value\<rparr>)"

text \<open>
  \<^verbatim>\<open>Entry.entry_from_text(text)\<close>. \<^verbatim>\<open>text.strip()[0]\<close> raises \<^verbatim>\<open>IndexError\<close> on a blank
  text, the two \<^verbatim>\<open>assert\<close>s raise \<^verbatim>\<open>AssertionError\<close>, \<^verbatim>\<open>value[-1]\<close> raises
  \<^verbatim>\<open>IndexError\<close> on an empty value. \<^verbatim>\<open>key.split('$')[1]\<close> is in range after the
  assertion that the key holds one \<^verbatim>\<open>$\<close>.
\<close>

definition entry_from_text :: "string \<Rightarrow> error + Entry" where
  "entry_from_text text =
     (case strip text of
        [] \<Rightarrow> Inl IndexError
      | c # rest \<Rightarrow>
          if c = CHR ''*'' then Entry_init comment None (Str rest)
          else if \<not> (str_count CHR ''='' text \<ge> 1) then Inl AssertionError
          else
            let parts = str_split CHR ''='' text;
                key = strip (hd parts);
                value = strip (str_join ''='' (tl parts))
            in if value = [] then Inl IndexError
               else
                 let value = (if last value = CHR '';'' then butlast value else value)
                 in if str_in ''ref '' key then
                      (if \<not> (str_count CHR ''$'' key = 1) then Inl AssertionError
                       else
                         let key = strip (str_split CHR ''$'' key ! 1)
                         in Entry_init variable (Some key)
                              (if CHR '':'' \<in> set value then StrList (str_split CHR '':'' value)
                               else Str value))
                    else
                      Entry_init parameter (Some key)
                        (if CHR '':'' \<in> set value then StrList (str_split CHR '':'' value)
                         else Str value))"

subsection \<open>Rendering an entry\<close>

text \<open>
  \<^verbatim>\<open>repr\<close> of a \<^verbatim>\<open>str\<close>, which an f-string applies to the items of a list. Only a
  comment whose value is a list is rendered through it (no parsed comment is); the other
  entries join a list with \<^verbatim>\<open>':'\<close>.
\<close>

definition hex_digit :: "nat \<Rightarrow> char" where
  "hex_digit d = (if d < 10 then char_of (48 + d) else char_of (87 + d))"

definition repr_char :: "char \<Rightarrow> char \<Rightarrow> string" where
  "repr_char quote c =
     (let n = (of_char c :: nat) in
      if c = quote \<or> n = 92 then [CHR 0x5C, c]
      else if n = 9 then [CHR 0x5C, CHR ''t'']
      else if n = 10 then [CHR 0x5C, CHR ''n'']
      else if n = 13 then [CHR 0x5C, CHR ''r'']
      else if n < 32 \<or> (127 \<le> n \<and> n \<le> 160) \<or> n = 173
        then [CHR 0x5C, CHR ''x'', hex_digit (n div 16), hex_digit (n mod 16)]
      else [c])"

definition repr_str :: "string \<Rightarrow> string" where
  "repr_str s =
     (let quote = (if CHR 0x27 \<in> set s \<and> CHR 0x22 \<notin> set s then CHR 0x22 else CHR 0x27)
      in [quote] @ concat (map (repr_char quote) s) @ [quote])"

definition repr_list :: "string list \<Rightarrow> string" where
  "repr_list xs = ''['' @ str_join '', '' (map repr_str xs) @ '']''"

text \<open>
  \<^verbatim>\<open>Entry.__str__(heading_spaces)\<close> (and \<^verbatim>\<open>to_string\<close>, which calls it). The last
  branch of the source, for a type that is none of the three, cannot be reached.
\<close>

definition Entry_str :: "Entry \<Rightarrow> nat option \<Rightarrow> string" where
  "Entry_str self heading_spaces =
     (let s = (case heading_spaces of None \<Rightarrow> replicate 5 CHR '' ''
                | Some n \<Rightarrow> replicate n CHR '' '');
          k = (case entry_key self of None \<Rightarrow> ''None'' | Some a_key \<Rightarrow> a_key)
      in case entry_type self of
           comment \<Rightarrow>
             ''*'' @ (case entry_value self of Str v \<Rightarrow> v | StrList vs \<Rightarrow> repr_list vs)
               @ [CHR 0x0A]
         | variable \<Rightarrow>
             s @ ''ref $'' @ k @ '' = ''
               @ (case entry_value self of Str v \<Rightarrow> v | StrList vs \<Rightarrow> str_join '':'' vs)
               @ '';'' @ [CHR 0x0A]
         | parameter \<Rightarrow>
             s @ k @ '' = ''
               @ (case entry_value self of Str v \<Rightarrow> v | StrList vs \<Rightarrow> str_join '':'' vs)
               @ '';'' @ [CHR 0x0A])"

subsection \<open>OrderedDict\<close>

text \<open>
  An \<^verbatim>\<open>OrderedDict\<close> is the list of its items in insertion order. A key of the
  containers is a \<^verbatim>\<open>str\<close>, or \<^verbatim>\<open>None\<close> (the key of a non-comment entry built without
  one). \<open>od_set\<close> is \<^verbatim>\<open>d[k] = v\<close>: a key already present keeps its position.
\<close>

type_synonym dkey = "string option"

definition od_keys :: "('k \<times> 'v) list \<Rightarrow> 'k list" where
  "od_keys d = map fst d"

definition od_values :: "('k \<times> 'v) list \<Rightarrow> 'v list" where
  "od_values d = map snd d"

definition od_get :: "('k \<times> 'v) list \<Rightarrow> 'k \<Rightarrow> 'v option" where
  "od_get d k = map_of d k"

fun od_set :: "'k \<Rightarrow> 'v \<Rightarrow> ('k \<times> 'v) list \<Rightarrow> ('k \<times> 'v) list" where
  "od_set k v [] = [(k, v)]"
| "od_set k v (p # ps) = (if fst p = k then (k, v) # ps else p # od_set k v ps)"

subsection \<open>Definition and Scan\<close>

text \<open>What a \<^verbatim>\<open>Definition\<close> stores under a key: one \<^verbatim>\<open>Entry\<close>, or a \<^verbatim>\<open>list\<close> of them.\<close>

datatype slot = One Entry | Many "Entry list"

text \<open>\<^verbatim>\<open>Scan\<close> is a subclass of \<^verbatim>\<open>Definition\<close> that only overrides \<^verbatim>\<open>__str__\<close>.\<close>

datatype def_class = Definition_class | Scan_class

record Definition =
  def_class :: def_class
  def_name :: string
  def_entries :: "(dkey \<times> slot) list"
  def_number_comments :: nat

definition Definition_init :: "string \<Rightarrow> Definition" where
  "Definition_init a_name =
     \<lparr>def_class = Definition_class, def_name = a_name, def_entries = [],
      def_number_comments = 0\<rparr>"

definition Scan_init :: "string \<Rightarrow> Definition" where
  "Scan_init a_name =
     \<lparr>def_class = Scan_class, def_name = a_name, def_entries = [],
      def_number_comments = 0\<rparr>"

definition comment_key :: "nat \<Rightarrow> dkey" where
  "comment_key n = Some (''comment-'' @ str_nat n)"

text \<open>\<^verbatim>\<open>Definition.add_entry(new_entry)\<close>, inherited by \<^verbatim>\<open>Scan\<close>.\<close>

definition add_entry :: "Definition \<Rightarrow> Entry \<Rightarrow> Definition" where
  "add_entry self new_entry =
     (if entry_type new_entry = comment then
        let n = def_number_comments self + 1
        in self\<lparr>def_number_comments := n,
                def_entries := od_set (comment_key n) (One new_entry) (def_entries self)\<rparr>
      else
        (case od_get (def_entries self) (entry_key new_entry) of
           Some (Many es) \<Rightarrow>
             self\<lparr>def_entries :=
               od_set (entry_key new_entry) (Many (es @ [new_entry])) (def_entries self)\<rparr>
         | Some (One e) \<Rightarrow>
             self\<lparr>def_entries :=
               od_set (entry_key new_entry) (Many [e, new_entry]) (def_entries self)\<rparr>
         | None \<Rightarrow>
             self\<lparr>def_entries :=
               od_set (entry_key new_entry) (One new_entry) (def_entries self)\<rparr>))"

definition slot_str :: "slot \<Rightarrow> string" where
  "slot_str an_entry =
     (case an_entry of
        Many es \<Rightarrow> concat (map (\<lambda>an_entry2. Entry_str an_entry2 None) es)
      | One e \<Rightarrow> Entry_str e None)"

text \<open>\<^verbatim>\<open>Definition.__str__\<close> and \<^verbatim>\<open>Scan.__str__\<close>.\<close>

definition Definition_str :: "Definition \<Rightarrow> string" where
  "Definition_str self =
     (case def_class self of
        Definition_class \<Rightarrow>
          ''def '' @ def_name self @ '';'' @ [CHR 0x0A]
            @ concat (map slot_str (od_values (def_entries self)))
            @ ''enddef;'' @ [CHR 0x0A]
      | Scan_class \<Rightarrow>
          ''scan '' @ def_name self @ '';'' @ [CHR 0x0A]
            @ concat (map slot_str (od_values (def_entries self)))
            @ ''endscan;'' @ [CHR 0x0A])"

subsection \<open>Section\<close>

datatype sec_child = Sec_Definition Definition | Sec_Entry Entry

record Section =
  sec_name :: string
  sec_definitions :: "(dkey \<times> sec_child) list"
  sec_number_comments :: nat

definition Section_init :: "string \<Rightarrow> Section" where
  "Section_init a_name = \<lparr>sec_name = a_name, sec_definitions = [], sec_number_comments = 0\<rparr>"

text \<open>\<^verbatim>\<open>Section.add_definition(new_definition)\<close>: the argument is a \<^verbatim>\<open>Definition\<close>
  (or \<^verbatim>\<open>Scan\<close>) or an \<^verbatim>\<open>Entry\<close>; the \<^verbatim>\<open>ValueError\<close> for anything else is excluded by
  the type.\<close>

definition add_definition :: "Section \<Rightarrow> sec_child \<Rightarrow> Section" where
  "add_definition self new_definition =
     (case new_definition of
        Sec_Definition d \<Rightarrow>
          self\<lparr>sec_definitions :=
            od_set (Some (def_name d)) new_definition (sec_definitions self)\<rparr>
      | Sec_Entry e \<Rightarrow>
          if entry_type e = comment then
            let n = sec_number_comments self + 1
            in self\<lparr>sec_number_comments := n,
                    sec_definitions := od_set (comment_key n) new_definition (sec_definitions self)\<rparr>
          else
            self\<lparr>sec_definitions :=
              od_set (entry_key e) new_definition (sec_definitions self)\<rparr>)"

definition sec_child_str :: "sec_child \<Rightarrow> string" where
  "sec_child_str a_definition =
     (case a_definition of
        Sec_Definition d \<Rightarrow> Definition_str d
      | Sec_Entry e \<Rightarrow> Entry_str e None)"

text \<open>\<^verbatim>\<open>Section.__str__\<close>.\<close>

definition Section_str :: "Section \<Rightarrow> string" where
  "Section_str self =
     ''$'' @ sec_name self @ '';'' @ [CHR 0x0A]
       @ concat (map sec_child_str (od_values (sec_definitions self)))"

subsection \<open>Vex\<close>

datatype vex_child = Vex_Section Section | Vex_Definition Definition | Vex_Entry Entry

record Vex =
  vex_name :: string
  vex_sections :: "(dkey \<times> vex_child) list"
  vex_number_comments :: nat

text \<open>\<^verbatim>\<open>Vex.__init__(name)\<close> with no file.\<close>

definition Vex_empty :: "string \<Rightarrow> Vex" where
  "Vex_empty a_name = \<lparr>vex_name = a_name, vex_sections = [], vex_number_comments = 0\<rparr>"

text \<open>\<^verbatim>\<open>Vex.add_section(a_section)\<close>: a \<^verbatim>\<open>Section\<close>, a \<^verbatim>\<open>Definition\<close> or an
  \<^verbatim>\<open>Entry\<close>.\<close>

definition add_section :: "Vex \<Rightarrow> vex_child \<Rightarrow> Vex" where
  "add_section self a_section =
     (case a_section of
        Vex_Section s \<Rightarrow>
          self\<lparr>vex_sections := od_set (Some (sec_name s)) a_section (vex_sections self)\<rparr>
      | Vex_Definition d \<Rightarrow>
          self\<lparr>vex_sections := od_set (Some (def_name d)) a_section (vex_sections self)\<rparr>
      | Vex_Entry e \<Rightarrow>
          if entry_type e = comment then
            let n = vex_number_comments self + 1
            in self\<lparr>vex_number_comments := n,
                    vex_sections := od_set (comment_key n) a_section (vex_sections self)\<rparr>
          else
            self\<lparr>vex_sections := od_set (entry_key e) a_section (vex_sections self)\<rparr>)"

definition vex_child_str :: "vex_child \<Rightarrow> string" where
  "vex_child_str a_section =
     (case a_section of
        Vex_Entry e \<Rightarrow> Entry_str e (Some 0)
      | Vex_Section s \<Rightarrow> Section_str s
      | Vex_Definition d \<Rightarrow> Definition_str d)"

text \<open>\<^verbatim>\<open>Vex.__str__\<close> (and \<^verbatim>\<open>to_string\<close>).\<close>

definition Vex_str :: "Vex \<Rightarrow> string" where
  "Vex_str self = concat (map vex_child_str (od_values (vex_sections self)))"

subsection \<open>Vex.to_file\<close>

text \<open>
  The file system is a map from paths to contents. In \<^verbatim>\<open>to_file(self, filename,
  overwrite)\<close> the name \<^verbatim>\<open>newfile\<close> is a local variable, bound by the \<^verbatim>\<open>with\<close>
  statement that opens the file; the test before it reads \<^verbatim>\<open>newfile\<close> (not
  \<^verbatim>\<open>filename\<close>) while it is still unbound, which raises \<^verbatim>\<open>UnboundLocalError\<close>. The
  \<^verbatim>\<open>and\<close> evaluates its right operand only when \<^verbatim>\<open>overwrite\<close> is false.
\<close>

type_synonym filesystem = "string \<rightharpoonup> string"

definition to_file :: "Vex \<Rightarrow> filesystem \<Rightarrow> string \<Rightarrow> bool \<Rightarrow> error + filesystem" where
  "to_file self files filename overwrite =
     (let newfile = (None :: string option)
      in if \<not> overwrite then
           (case newfile of
              None \<Rightarrow> Inl UnboundLocalError
            | Some path \<Rightarrow>
                if path \<in> dom files then Inl FileExistsError
                else Inr (files(filename \<mapsto> Vex_str self)))
         else Inr (files(filename \<mapsto> Vex_str self)))"

subsection \<open>Vex.from_file\<close>

text \<open>
  \<^verbatim>\<open>readlines\<close>: the text cut after every line feed; a last line without one is kept.
  The contents of a file are the text that the file object opened in text mode delivers,
  in which every line ends with a line feed.
\<close>

fun readlines :: "string \<Rightarrow> string list" where
  "readlines [] = []"
| "readlines (c # cs) =
     (if c = CHR 0x0A then [c] # readlines cs
      else (case readlines cs of
              [] \<Rightarrow> [[c]]
            | l # ls \<Rightarrow> (c # l) # ls))"

text \<open>
  The state of the loop of \<^verbatim>\<open>from_file\<close>: the \<^verbatim>\<open>Vex\<close> object being filled and the
  three local variables.
\<close>

record parser =
  self_vex :: Vex
  prev_line :: "string option"
  current_section :: "Section option"
  current_definition :: "Definition option"

text \<open>
  The three-way branch that stores an entry, written out twice in the source (once
  for a comment line, once for an ordinary entry): into the open definition, else into
  the open section, else into the \<^verbatim>\<open>Vex\<close> object.
\<close>

definition store_entry :: "parser \<Rightarrow> Entry \<Rightarrow> parser" where
  "store_entry st e =
     (case current_definition st of
        Some d \<Rightarrow> st\<lparr>current_definition := Some (add_entry d e)\<rparr>
      | None \<Rightarrow>
          (case current_section st of
             Some s \<Rightarrow> st\<lparr>current_section := Some (add_definition s (Sec_Entry e))\<rparr>
           | None \<Rightarrow> st\<lparr>self_vex := add_section (self_vex st) (Vex_Entry e)\<rparr>))"

text \<open>
  The chain of \<^verbatim>\<open>if\<close>/\<^verbatim>\<open>elif\<close> on the complete, stripped logical line.
  \<^verbatim>\<open>current_section.add_definition\<close> on \<^verbatim>\<open>None\<close> raises \<^verbatim>\<open>AttributeError\<close>.
\<close>

definition dispatch :: "parser \<Rightarrow> string \<Rightarrow> error + parser" where
  "dispatch st currentline =
     (case currentline of
        [] \<Rightarrow> Inl IndexError
      | c # _ \<Rightarrow>
          if c = CHR ''$'' then
            (let st = (case current_section st of
                         Some s \<Rightarrow> st\<lparr>self_vex := add_section (self_vex st) (Vex_Section s)\<rparr>
                       | None \<Rightarrow> st)
             in case str_index CHR '';'' currentline of
                  Inl err \<Rightarrow> Inl err
                | Inr i \<Rightarrow> Inr (st\<lparr>current_section := Some (Section_init (slice 1 i currentline))\<rparr>))
          else if take 4 currentline = ''def '' then
            (if current_definition st \<noteq> None
             then Inl (ValueError ''A definition inside a definition is not supported'')
             else case str_index CHR '';'' currentline of
                    Inl err \<Rightarrow> Inl err
                  | Inr i \<Rightarrow>
                      Inr (st\<lparr>current_definition := Some (Definition_init (slice 4 i currentline))\<rparr>))
          else if take 6 currentline = ''enddef'' then
            (case current_definition st of
               None \<Rightarrow> Inl (ValueError ''enddef without a previous def'')
             | Some d \<Rightarrow>
                 (case current_section st of
                    None \<Rightarrow> Inl AttributeError
                  | Some s \<Rightarrow>
                      Inr (st\<lparr>current_section := Some (add_definition s (Sec_Definition d)),
                              current_definition := None\<rparr>)))
          else if take 5 currentline = ''scan '' then
            (if current_definition st \<noteq> None
             then Inl (ValueError ''A definition inside a definition is not supported'')
             else case str_index CHR '';'' currentline of
                    Inl err \<Rightarrow> Inl err
                  | Inr i \<Rightarrow>
                      Inr (st\<lparr>current_definition := Some (Scan_init (slice 5 i currentline))\<rparr>))
          else if take 7 currentline = ''endscan'' then
            (case current_definition st of
               None \<Rightarrow> Inl (ValueError ''endscan without a previous scan'')
             | Some d \<Rightarrow>
                 (case current_section st of
                    None \<Rightarrow> Inl AttributeError
                  | Some s \<Rightarrow>
                      Inr (st\<lparr>current_section := Some (add_definition s (Sec_Definition d)),
                              current_definition := None\<rparr>)))
          else
            (case entry_from_text currentline of
               Inl err \<Rightarrow> Inl err
             | Inr e \<Rightarrow> Inr (store_entry st e)))"

text \<open>The body of the loop, for one physical line.\<close>

definition parse_line :: "parser \<Rightarrow> string \<Rightarrow> error + parser" where
  "parse_line st vexline =
     (case strip vexline of
        [] \<Rightarrow> Inl IndexError
      | c # _ \<Rightarrow>
          if c = CHR ''*'' then
            (case entry_from_text vexline of
               Inl err \<Rightarrow> Inl err
             | Inr e \<Rightarrow> Inr (store_entry st e))
          else if CHR '';'' \<notin> set vexline then
            Inr (st\<lparr>prev_line :=
                   Some (case prev_line st of None \<Rightarrow> vexline | Some p \<Rightarrow> p @ vexline)\<rparr>)
          else
            dispatch (st\<lparr>prev_line := None\<rparr>)
              (strip (case prev_line st of None \<Rightarrow> vexline | Some p \<Rightarrow> p @ vexline)))"

text \<open>The \<^verbatim>\<open>for\<close> loop: an exception ends it.\<close>

fun parse_lines :: "parser \<Rightarrow> string list \<Rightarrow> error + parser" where
  "parse_lines st [] = Inr st"
| "parse_lines st (vexline # vexlines) =
     (case parse_line st vexline of
        Inl err \<Rightarrow> Inl err
      | Inr st' \<Rightarrow> parse_lines st' vexlines)"

text \<open>The state before the first line: the three locals are \<^verbatim>\<open>None\<close>.\<close>

definition parser_init :: "Vex \<Rightarrow> parser" where
  "parser_init v =
     \<lparr>self_vex = v, prev_line = None, current_section = None, current_definition = None\<rparr>"

text \<open>
  \<^verbatim>\<open>Vex.from_file\<close>, on the lines that \<^verbatim>\<open>readlines\<close> returned: the loop, then the last
  open section is added. The object is not emptied first.
\<close>

definition from_lines :: "Vex \<Rightarrow> string list \<Rightarrow> error + Vex" where
  "from_lines v vexlines =
     (case parse_lines (parser_init v) vexlines of
        Inl err \<Rightarrow> Inl err
      | Inr st \<Rightarrow>
          (case current_section st of
             Some s \<Rightarrow> Inr (add_section (self_vex st) (Vex_Section s))
           | None \<Rightarrow> Inr (self_vex st)))"

definition from_file :: "Vex \<Rightarrow> string \<Rightarrow> error + Vex" where
  "from_file v contents = from_lines v (readlines contents)"

text \<open>\<^verbatim>\<open>Vex(name, vexfile)\<close> on a file with the given contents.\<close>

definition Vex_init :: "string \<Rightarrow> string \<Rightarrow> error + Vex" where
  "Vex_init a_name contents = from_file (Vex_empty a_name) contents"

subsection \<open>Notions used to state the properties\<close>

text \<open>
  The key under which each \<open>add\<close> method stores its argument: the synthetic
  \<^verbatim>\<open>comment-<n>\<close> for a comment, the entry's key or the block's name otherwise.
\<close>

definition def_entry_key :: "Definition \<Rightarrow> Entry \<Rightarrow> dkey" where
  "def_entry_key d new_entry =
     (if entry_type new_entry = comment then comment_key (def_number_comments d + 1)
      else entry_key new_entry)"

definition sec_child_key :: "Section \<Rightarrow> sec_child \<Rightarrow> dkey" where
  "sec_child_key s new_definition =
     (case new_definition of
        Sec_Definition d \<Rightarrow> Some (def_name d)
      | Sec_Entry e \<Rightarrow>
          if entry_type e = comment then comment_key (sec_number_comments s + 1)
          else entry_key e)"

definition vex_child_key :: "Vex \<Rightarrow> vex_child \<Rightarrow> dkey" where
  "vex_child_key v a_section =
     (case a_section of
        Vex_Section s \<Rightarrow> Some (sec_name s)
      | Vex_Definition d \<Rightarrow> Some (def_name d)
      | Vex_Entry e \<Rightarrow>
          if entry_type e = comment then comment_key (vex_number_comments v + 1)
          else entry_key e)"

text \<open>The keys that a sequence of insertions uses, the comment counter starting at \<open>n\<close>.\<close>

fun def_entry_keys :: "nat \<Rightarrow> Entry list \<Rightarrow> dkey list" where
  "def_entry_keys n [] = []"
| "def_entry_keys n (e # es) =
     (if entry_type e = comment then comment_key (n + 1) # def_entry_keys (n + 1) es
      else entry_key e # def_entry_keys n es)"

fun sec_child_keys :: "nat \<Rightarrow> sec_child list \<Rightarrow> dkey list" where
  "sec_child_keys n [] = []"
| "sec_child_keys n (Sec_Definition d # cs) = Some (def_name d) # sec_child_keys n cs"
| "sec_child_keys n (Sec_Entry e # cs) =
     (if entry_type e = comment then comment_key (n + 1) # sec_child_keys (n + 1) cs
      else entry_key e # sec_child_keys n cs)"

fun vex_child_keys :: "nat \<Rightarrow> vex_child list \<Rightarrow> dkey list" where
  "vex_child_keys n [] = []"
| "vex_child_keys n (Vex_Section s # cs) = Some (sec_name s) # vex_child_keys n cs"
| "vex_child_keys n (Vex_Definition d # cs) = Some (def_name d) # vex_child_keys n cs"
| "vex_child_keys n (Vex_Entry e # cs) =
     (if entry_type e = comment then comment_key (n + 1) # vex_child_keys (n + 1) cs
      else entry_key e # vex_child_keys n cs)"

text \<open>
  First-insertion order: a key that was seen keeps its place, a new key goes to the end.
  \<open>foldl key_seen [] ks\<close> lists the distinct keys of \<open>ks\<close> in the order of their first
  occurrence.
\<close>

definition key_seen :: "'k list \<Rightarrow> 'k \<Rightarrow> 'k list" where
  "key_seen seen k = (if k \<in> set seen then seen else seen @ [k])"


definition completes_line :: "string \<Rightarrow> bool" where
  "completes_line vexline =
     (strip vexline \<noteq> [] \<and> hd (strip vexline) \<noteq> CHR ''*'' \<and> CHR '';'' \<in> set vexline)"

definition opens_block :: "string \<Rightarrow> bool" where
  "opens_block currentline = (take 4 currentline = ''def '' \<or> take 5 currentline = ''scan '')"

definition closes_block :: "string \<Rightarrow> bool" where
  "closes_block currentline =
     (take 6 currentline = ''enddef'' \<or> take 7 currentline = ''endscan'')"



subsection \<open>Notions used for reading back what was written\<close>

abbreviation nl :: char where
  "nl \<equiv> CHR 0x0A"

text \<open>The physical line that starts a text is neither blank nor a comment.\<close>

definition line_ok :: "string \<Rightarrow> bool" where
  "line_ok s =
     (case strip (takeWhile (\<lambda>c. c \<noteq> nl) s) of [] \<Rightarrow> False | c # _ \<Rightarrow> c \<noteq> CHR ''*'')"

text \<open>\<open>anl a b\<close>: in the text \<open>a @ b\<close>, every physical line that starts behind a line feed
  of \<open>a\<close> is neither blank nor a comment.\<close>

fun anl :: "string \<Rightarrow> string \<Rightarrow> bool" where
  "anl [] b = True"
| "anl (c # cs) b = ((c \<noteq> nl \<or> line_ok (cs @ b)) \<and> anl cs b)"

text \<open>No line feed follows a terminator: the terminators are on the last physical line.\<close>

fun nlsemi :: "string \<Rightarrow> bool" where
  "nlsemi [] = True"
| "nlsemi (c # cs) = (if c = CHR '';'' then nl \<notin> set cs else nlsemi cs)"

text \<open>
  A statement: a text (without its final line feed) that the loop of \<^verbatim>\<open>from_file\<close>
  assembles into one logical line. Its last physical line holds a terminator, the lines
  before hold none, and no line is blank or a comment.
\<close>

definition stmt :: "string \<Rightarrow> bool" where
  "stmt w = (CHR '';'' \<in> set w \<and> nlsemi w \<and> line_ok w \<and> anl w [])"

text \<open>The continuation buffer as a text: empty when \<^verbatim>\<open>prev_line\<close> is \<^verbatim>\<open>None\<close>.\<close>

definition pbuf :: "parser \<Rightarrow> string" where
  "pbuf st = (case prev_line st of None \<Rightarrow> [] | Some p \<Rightarrow> p)"

text \<open>
  The text of the value of an entry, and the value that \<^verbatim>\<open>entry_from_text\<close> stores for a
  value text.
\<close>

definition value_text :: "entry_value \<Rightarrow> string" where
  "value_text v = (case v of Str s \<Rightarrow> s | StrList vs \<Rightarrow> str_join '':'' vs)"

definition split_value :: "string \<Rightarrow> entry_value" where
  "split_value v = (if CHR '':'' \<in> set v then StrList (str_split CHR '':'' v) else Str v)"

text \<open>What \<^verbatim>\<open>Entry.__str__\<close> writes for a parameter or a variable between the
  indentation and the terminator.\<close>

definition entry_text :: "Entry \<Rightarrow> string" where
  "entry_text e =
     (if entry_type e = variable then ''ref $'' else [])
       @ (case entry_key e of None \<Rightarrow> ''None'' | Some k \<Rightarrow> k)
       @ '' = '' @ value_text (entry_value e)"

text \<open>
  What holds of every entry that the parser builds (shown below). The key is stripped and
  holds no \<^verbatim>\<open>=\<close>; the key of a variable holds no \<^verbatim>\<open>$\<close>; the key of a parameter
  does not hold \<^verbatim>\<open>ref \<close> and does not start like a comment, a section or a block line.
  The value is the split of its own text, which does not start with whitespace. A comment
  is one physical line without trailing whitespace. Written out, the entry is a statement.
\<close>

definition key_start_ok :: "string \<Rightarrow> bool" where
  "key_start_ok k =
     ((k = [] \<or> (hd k \<noteq> CHR ''*'' \<and> hd k \<noteq> CHR ''$''))
      \<and> take 4 k \<noteq> ''def '' \<and> take 5 k \<noteq> ''scan ''
      \<and> take 6 k \<noteq> ''enddef'' \<and> take 7 k \<noteq> ''endscan'')"

definition entry_ok :: "Entry \<Rightarrow> bool" where
  "entry_ok e =
     (if entry_type e = comment then
        entry_key e = None \<and>
        (case entry_value e of
           Str r \<Rightarrow> nl \<notin> set r \<and> (r = [] \<or> \<not> isspace (last r))
         | StrList _ \<Rightarrow> False)
      else
        (case entry_key e of
           None \<Rightarrow> False
         | Some k \<Rightarrow>
             strip k = k \<and> CHR ''='' \<notin> set k \<and>
             (if entry_type e = variable then CHR ''$'' \<notin> set k
              else \<not> str_in ''ref '' k \<and> key_start_ok k))
        \<and> entry_value e = split_value (value_text (entry_value e))
        \<and> (value_text (entry_value e) = [] \<or> \<not> isspace (hd (value_text (entry_value e))))
        \<and> nlsemi (entry_text e) \<and> anl (entry_text e @ '';'') [])"

text \<open>A parameter whose key is \<^verbatim>\<open>def\<close> or \<^verbatim>\<open>scan\<close> is written as a line that opens a
  block.\<close>

definition keyword_key :: "Entry \<Rightarrow> bool" where
  "keyword_key e =
     (entry_type e = parameter \<and> (entry_key e = Some ''def'' \<or> entry_key e = Some ''scan''))"

text \<open>The name of a section or block that the parser builds holds no terminator, and
  written out with its terminator it has no blank or comment line.\<close>

definition name_ok :: "string \<Rightarrow> bool" where
  "name_ok n = (CHR '';'' \<notin> set n \<and> anl (n @ '';'') [])"

text \<open>The entries of a container, in the order in which they are written.\<close>

fun slot_entries :: "slot \<Rightarrow> Entry list" where
  "slot_entries (One e) = [e]"
| "slot_entries (Many es) = es"

definition def_all_entries :: "Definition \<Rightarrow> Entry list" where
  "def_all_entries d = concat (map slot_entries (od_values (def_entries d)))"

definition sec_child_entries :: "sec_child \<Rightarrow> Entry list" where
  "sec_child_entries c =
     (case c of Sec_Definition d \<Rightarrow> def_all_entries d | Sec_Entry e \<Rightarrow> [e])"

definition sec_all_entries :: "Section \<Rightarrow> Entry list" where
  "sec_all_entries s = concat (map sec_child_entries (od_values (sec_definitions s)))"

definition vex_child_entries :: "vex_child \<Rightarrow> Entry list" where
  "vex_child_entries c =
     (case c of
        Vex_Section s \<Rightarrow> sec_all_entries s
      | Vex_Definition d \<Rightarrow> def_all_entries d
      | Vex_Entry e \<Rightarrow> [e])"

definition vex_all_entries :: "Vex \<Rightarrow> Entry list" where
  "vex_all_entries v = concat (map vex_child_entries (od_values (vex_sections v)))"

text \<open>What holds of every container that the parser builds: its entries and names are
  as above, and a document holds no block at its top level.\<close>

definition def_ok :: "Definition \<Rightarrow> bool" where
  "def_ok d = (name_ok (def_name d) \<and> list_all entry_ok (def_all_entries d))"

definition sec_child_ok :: "sec_child \<Rightarrow> bool" where
  "sec_child_ok c = (case c of Sec_Definition d \<Rightarrow> def_ok d | Sec_Entry e \<Rightarrow> entry_ok e)"

definition sec_ok :: "Section \<Rightarrow> bool" where
  "sec_ok s = (name_ok (sec_name s) \<and> list_all sec_child_ok (od_values (sec_definitions s)))"

definition vex_child_ok :: "vex_child \<Rightarrow> bool" where
  "vex_child_ok c =
     (case c of
        Vex_Section s \<Rightarrow> sec_ok s
      | Vex_Definition d \<Rightarrow> False
      | Vex_Entry e \<Rightarrow> entry_ok e)"

definition vex_ok :: "Vex \<Rightarrow> bool" where
  "vex_ok v = list_all vex_child_ok (od_values (vex_sections v))"

text \<open>
  A container is canonical when adding its children, in the order in which they are
  stored, to the empty container of the same name gives the container back: the same
  keys in the same order, the same children and the same comment counter.
\<close>

definition def_canonical :: "Definition \<Rightarrow> bool" where
  "def_canonical d =
     (foldl add_entry (d\<lparr>def_entries := [], def_number_comments := 0\<rparr>) (def_all_entries d) = d)"

definition sec_child_canonical :: "sec_child \<Rightarrow> bool" where
  "sec_child_canonical c =
     (case c of Sec_Definition d \<Rightarrow> def_canonical d | Sec_Entry e \<Rightarrow> True)"

definition sec_canonical :: "Section \<Rightarrow> bool" where
  "sec_canonical s =
     (foldl add_definition (s\<lparr>sec_definitions := [], sec_number_comments := 0\<rparr>)
        (od_values (sec_definitions s)) = s
      \<and> list_all sec_child_canonical (od_values (sec_definitions s)))"

definition vex_child_canonical :: "vex_child \<Rightarrow> bool" where
  "vex_child_canonical c =
     (case c of
        Vex_Section s \<Rightarrow> sec_canonical s
      | Vex_Definition d \<Rightarrow> def_canonical d
      | Vex_Entry e \<Rightarrow> True)"

text \<open>The entries at the top level of a document come before its sections.\<close>

fun entries_first :: "vex_child list \<Rightarrow> bool" where
  "entries_first [] = True"
| "entries_first (Vex_Entry e # cs) = entries_first cs"
| "entries_first (c # cs) =
     list_all (\<lambda>c. case c of Vex_Entry e \<Rightarrow> False | _ \<Rightarrow> True) (c # cs)"

definition vex_canonical :: "Vex \<Rightarrow> bool" where
  "vex_canonical v =
     (foldl add_section (v\<lparr>vex_sections := [], vex_number_comments := 0\<rparr>)
        (od_values (vex_sections v)) = v
      \<and> list_all vex_child_canonical (od_values (vex_sections v))
      \<and> entries_first (od_values (vex_sections v)))"

text \<open>The document that \<^verbatim>\<open>from_file\<close> returns when the loop ends in a state.\<close>

definition seal :: "parser \<Rightarrow> Vex" where
  "seal st =
     (case current_section st of
        Some s \<Rightarrow> add_section (self_vex st) (Vex_Section s)
      | None \<Rightarrow> self_vex st)"

text \<open>
  The continuation buffer of the parser: complete physical lines without a terminator,
  none of them blank or a comment.
\<close>

definition buf_ok :: "string \<Rightarrow> bool" where
  "buf_ok b =
     (b = [] \<or> (last b = nl \<and> CHR '';'' \<notin> set b \<and> line_ok b \<and> anl (butlast b) [nl]))"

text \<open>What holds of the document, the open section and the open block in every state of
  the parser.\<close>

definition state_ok :: "parser \<Rightarrow> bool" where
  "state_ok st =
     (vex_ok (self_vex st)
      \<and> (case current_section st of None \<Rightarrow> True | Some s \<Rightarrow> sec_ok s)
      \<and> (case current_definition st of None \<Rightarrow> True | Some d \<Rightarrow> def_ok d))"

text \<open>A physical line as \<^verbatim>\<open>readlines\<close> returns it: not empty, with no line feed but at its
  end.\<close>

definition phys :: "string \<Rightarrow> bool" where
  "phys l = (l \<noteq> [] \<and> nl \<notin> set (butlast l))"


subsection \<open>An example\<close>

text \<open>A text with a top-level parameter and comment, a section with a definition that
  holds a comment, a repeated variable and a statement over two lines, and a section with
  a scan; and the document that it parses to.\<close>

definition example_text :: string where
  "example_text =
     ''VEX_rev = 1.5;\<newline>'' @
     ''*   a schedule\<newline>'' @
     ''$EXPER;\<newline>'' @
     ''def e1;\<newline>'' @
     ''  exper_name=e1;\<newline>'' @
     ''  * inside\<newline>'' @
     ''  ref $IF = a : b;\<newline>'' @
     ''  target = x;\<newline>'' @
     ''  ref $IF =\<newline>'' @
     ''     c;\<newline>'' @
     ''enddef;\<newline>'' @
     ''$SCHED;\<newline>'' @
     ''scan No1;\<newline>'' @
     ''  start = 1y;\<newline>'' @
     ''endscan;\<newline>''"

definition example_document :: Vex where
  "example_document =
     \<lparr>vex_name = ''x'',
      vex_sections =
        [(Some ''VEX_rev'',
          Vex_Entry \<lparr>entry_type = parameter, entry_key = Some ''VEX_rev'',
                     entry_value = Str ''1.5''\<rparr>),
         (Some ''comment-1'',
          Vex_Entry \<lparr>entry_type = comment, entry_key = None,
                     entry_value = Str ''   a schedule''\<rparr>),
         (Some ''EXPER'',
          Vex_Section
            \<lparr>sec_name = ''EXPER'',
             sec_definitions =
               [(Some ''e1'',
                 Sec_Definition
                   \<lparr>def_class = Definition_class, def_name = ''e1'',
                    def_entries =
                      [(Some ''exper_name'',
                        One \<lparr>entry_type = parameter, entry_key = Some ''exper_name'',
                             entry_value = Str ''e1''\<rparr>),
                       (Some ''comment-1'',
                        One \<lparr>entry_type = comment, entry_key = None,
                             entry_value = Str '' inside''\<rparr>),
                       (Some ''IF'',
                        Many [\<lparr>entry_type = variable, entry_key = Some ''IF'',
                               entry_value = StrList [''a '', '' b'']\<rparr>,
                              \<lparr>entry_type = variable, entry_key = Some ''IF'',
                               entry_value = Str ''c''\<rparr>]),
                       (Some ''target'',
                        One \<lparr>entry_type = parameter, entry_key = Some ''target'',
                             entry_value = Str ''x''\<rparr>)],
                    def_number_comments = 1\<rparr>)],
             sec_number_comments = 0\<rparr>),
         (Some ''SCHED'',
          Vex_Section
            \<lparr>sec_name = ''SCHED'',
             sec_definitions =
               [(Some ''No1'',
                 Sec_Definition
                   \<lparr>def_class = Scan_class, def_name = ''No1'',
                    def_entries =
                      [(Some ''start'',
                        One \<lparr>entry_type = parameter, entry_key = Some ''start'',
                             entry_value = Str ''1y''\<rparr>)],
                    def_number_comments = 0\<rparr>)],
             sec_number_comments = 0\<rparr>)],
      vex_number_comments = 1\<rparr>"

section \<open>Lemmas\<close>

subsection \<open>Strings\<close>

lemma str_split_ne: "str_split c s \<noteq> []"
  by (induction s) auto

lemma str_split_notin: "c \<notin> set s \<Longrightarrow> str_split c s = [s]"
  by (induction s) auto

lemma str_split_first: "c \<notin> set k \<Longrightarrow> str_split c (k @ c # r) = k # str_split c r"
  by (induction k) auto

lemma str_join_split: "str_join [c] (str_split c s) = s"
proof (induction s)
  case Nil
  show ?case by simp
next
  case (Cons x xs)
  obtain w ws where sp: "str_split c xs = w # ws"
    using str_split_ne [of c xs] by (cases "str_split c xs") auto
  show ?case
  proof (cases "x = c")
    case True
    then show ?thesis using Cons sp by simp
  next
    case False
    then show ?thesis using Cons sp by (cases ws) auto
  qed
qed

lemma str_split_length: "length (str_split c s) = str_count c s + 1"
  unfolding str_count_def
proof (induction s)
  case Nil
  show ?case by simp
next
  case (Cons x xs)
  have "str_split c xs \<noteq> []" by (rule str_split_ne)
  then show ?case using Cons by (cases "str_split c xs") auto
qed

lemma str_count_pos: "(1 \<le> str_count c s) = (c \<in> set s)"
  unfolding str_count_def
  by (induction s) auto

lemma str_split_ge2: "c \<in> set s \<Longrightarrow> 2 \<le> length (str_split c s)"
  using str_count_pos [of c s] by (simp add: str_split_length)

lemma isspace_marks [simp]:
  "\<not> isspace CHR ''=''" "\<not> isspace CHR '';''" "\<not> isspace CHR ''*''"
  by (simp_all add: isspace_def)

text \<open>Splitting at the first \<^verbatim>\<open>=\<close>: the head is what precedes it, and joining the tail
  with \<^verbatim>\<open>=\<close> gives back everything that follows it.\<close>

lemma split_first_equals:
  assumes "CHR ''='' \<notin> set k"
  shows "str_split CHR ''='' (k @ ''='' @ r) = k # str_split CHR ''='' r"
    and "str_join ''='' (tl (str_split CHR ''='' (k @ ''='' @ r))) = r"
    and "str_count CHR ''='' (k @ ''='' @ r) \<ge> 1"
  using assms str_split_first [of "CHR ''=''" k r] str_join_split [of "CHR ''=''" r]
  by (simp_all add: str_count_def)

subsection \<open>Entries\<close>

lemma Entry_init_Inr:
  "(Entry_init t k v = Inr e) =
     (\<not> (t = comment \<and> k \<noteq> None) \<and> e = \<lparr>entry_type = t, entry_key = k, entry_value = v\<rparr>)"
  by (auto simp: Entry_init_def)

lemma entry_from_text_key:
  assumes "entry_from_text text = Inr e"
  shows "(entry_key e = None) = (entry_type e = comment)"
proof (cases "strip text")
  case Nil
  then show ?thesis using assms by (simp add: entry_from_text_def)
next
  case (Cons c rest)
  show ?thesis
  proof (cases "c = CHR ''*''")
    case True
    then show ?thesis using assms Cons by (simp add: entry_from_text_def Entry_init_Inr)
  next
    case False
    then have "\<exists>k v. e = \<lparr>entry_type = variable, entry_key = Some k, entry_value = v\<rparr>
        \<or> e = \<lparr>entry_type = parameter, entry_key = Some k, entry_value = v\<rparr>"
      using assms Cons
      by (simp add: entry_from_text_def Entry_init_Inr Let_def split: if_split_asm)
    then show ?thesis by auto
  qed
qed

subsection \<open>OrderedDict\<close>

lemma od_keys_od_set:
  "od_keys (od_set k v d) = (if k \<in> set (od_keys d) then od_keys d else od_keys d @ [k])"
  unfolding od_keys_def by (induction d) auto

lemma od_get_Some_keys: "od_get d k = Some v \<Longrightarrow> k \<in> set (od_keys d)"
  unfolding od_get_def od_keys_def by (auto dest: map_of_SomeD intro: rev_image_eqI)

lemma od_get_None_keys: "od_get d k = None \<Longrightarrow> k \<notin> set (od_keys d)"
  unfolding od_get_def od_keys_def by (simp add: map_of_eq_None_iff)

lemma od_set_present:
  "k \<notin> fst ` set pre \<Longrightarrow> od_set k v (pre @ (k, v0) # post) = pre @ (k, v) # post"
  by (induction pre) auto

lemma od_get_present:
  "k \<notin> fst ` set pre \<Longrightarrow> od_get (pre @ (k, v0) # post) k = Some v0"
  unfolding od_get_def by (induction pre) auto

lemma od_values_by_keys:
  "distinct (od_keys d) \<Longrightarrow> od_values d = map (\<lambda>k. the (od_get d k)) (od_keys d)"
  unfolding od_values_def od_keys_def od_get_def
proof (induction d)
  case Nil
  show ?case by simp
next
  case (Cons p ps)
  have "map (\<lambda>k. the (map_of (p # ps) k)) (map fst ps)
      = map (\<lambda>k. the (map_of ps k)) (map fst ps)"
    using Cons.prems by (intro map_cong) (auto simp: image_iff)
  then show ?case using Cons by simp
qed

subsection \<open>The parser loop\<close>

lemma parse_lines_append:
  "parse_lines st (pre @ post) =
     (case parse_lines st pre of Inl err \<Rightarrow> Inl err | Inr st' \<Rightarrow> parse_lines st' post)"
  by (induction pre arbitrary: st) (auto split: sum.splits)

lemma parse_line_blank: "strip l = [] \<Longrightarrow> parse_line st l = Inl IndexError"
  by (simp add: parse_line_def)











subsection \<open>Keys of the containers\<close>

lemma add_entry_keys:
  "od_keys (def_entries (add_entry d e)) = key_seen (od_keys (def_entries d)) (def_entry_key d e)"
  by (auto simp: add_entry_def def_entry_key_def key_seen_def od_keys_od_set Let_def
      dest: od_get_Some_keys od_get_None_keys split: option.splits slot.splits)

lemma add_definition_keys:
  "od_keys (sec_definitions (add_definition s c)) =
     key_seen (od_keys (sec_definitions s)) (sec_child_key s c)"
  by (auto simp: add_definition_def sec_child_key_def key_seen_def od_keys_od_set Let_def
      split: sec_child.splits)

lemma add_section_keys:
  "od_keys (vex_sections (add_section v c)) =
     key_seen (od_keys (vex_sections v)) (vex_child_key v c)"
  by (auto simp: add_section_def vex_child_key_def key_seen_def od_keys_od_set Let_def
      split: vex_child.splits)

lemma add_entry_number_comments:
  "def_number_comments (add_entry d e) =
     (if entry_type e = comment then def_number_comments d + 1 else def_number_comments d)"
  by (simp add: add_entry_def Let_def split: option.splits slot.splits)

lemma add_definition_number_comments:
  "sec_number_comments (add_definition s c) =
     (case c of Sec_Definition d \<Rightarrow> sec_number_comments s
      | Sec_Entry e \<Rightarrow>
          if entry_type e = comment then sec_number_comments s + 1 else sec_number_comments s)"
  by (simp add: add_definition_def Let_def split: sec_child.splits)

lemma add_section_number_comments:
  "vex_number_comments (add_section v c) =
     (case c of Vex_Entry e \<Rightarrow>
          if entry_type e = comment then vex_number_comments v + 1 else vex_number_comments v
      | _ \<Rightarrow> vex_number_comments v)"
  by (simp add: add_section_def Let_def split: vex_child.splits)

lemma foldl_add_entry_keys:
  "od_keys (def_entries (foldl add_entry d es)) =
     foldl key_seen (od_keys (def_entries d)) (def_entry_keys (def_number_comments d) es)"
proof (induction es arbitrary: d)
  case Nil
  show ?case by simp
next
  case (Cons e es)
  show ?case
    by (simp add: Cons add_entry_keys add_entry_number_comments def_entry_key_def)
qed

lemma foldl_add_definition_keys:
  "od_keys (sec_definitions (foldl add_definition s cs)) =
     foldl key_seen (od_keys (sec_definitions s)) (sec_child_keys (sec_number_comments s) cs)"
proof (induction cs arbitrary: s)
  case Nil
  show ?case by simp
next
  case (Cons c cs)
  show ?case
    by (cases c)
      (simp_all add: Cons add_definition_keys add_definition_number_comments sec_child_key_def)
qed

lemma foldl_add_section_keys:
  "od_keys (vex_sections (foldl add_section v cs)) =
     foldl key_seen (od_keys (vex_sections v)) (vex_child_keys (vex_number_comments v) cs)"
proof (induction cs arbitrary: v)
  case Nil
  show ?case by simp
next
  case (Cons c cs)
  show ?case
    by (cases c)
      (simp_all add: Cons add_section_keys add_section_number_comments vex_child_key_def)
qed

lemma key_seen_distinct: "distinct seen \<Longrightarrow> distinct (foldl key_seen seen ks)"
  by (induction ks arbitrary: seen) (auto simp: key_seen_def)


subsection \<open>Stripping\<close>

lemma isspace_nl [simp]: "isspace nl"
  unfolding isspace_def by simp

lemma isspace_space [simp]: "isspace CHR '' ''"
  unfolding isspace_def by simp

lemma dropWhile_all: "(\<forall>c \<in> set s. P c) \<Longrightarrow> dropWhile P s = []"
  by (induction s) auto

lemma dropWhile_keep: "s \<noteq> [] \<Longrightarrow> \<not> P (hd s) \<Longrightarrow> dropWhile P s = s"
  by (cases s) auto

lemma strip_all_space: "\<forall>c \<in> set s. isspace c \<Longrightarrow> strip s = []"
  unfolding strip_def by (simp add: dropWhile_all)

lemma strip_id:
  assumes "s \<noteq> []" "\<not> isspace (hd s)" "\<not> isspace (last s)"
  shows "strip s = s"
proof -
  have "dropWhile isspace s = s" using assms(1,2) by (rule dropWhile_keep)
  moreover have "dropWhile isspace (rev s) = rev s"
    using assms(1,3) by (intro dropWhile_keep) (simp_all add: hd_rev)
  ultimately show ?thesis unfolding strip_def by simp
qed

lemma strip_spaces_left: "\<forall>c \<in> set a. isspace c \<Longrightarrow> strip (a @ s) = strip s"
  unfolding strip_def by (simp add: dropWhile_append dropWhile_all)

lemma strip_spaces_right:
  assumes "\<forall>c \<in> set b. isspace c"
  shows "strip (s @ b) = strip s"
proof (cases "\<forall>c \<in> set s. isspace c")
  case True
  then have "\<forall>c \<in> set (s @ b). isspace c" using assms by auto
  then show ?thesis using True by (simp only: strip_all_space)
next
  case False
  then obtain x where "x \<in> set s" "\<not> isspace x" by blast
  then have "dropWhile isspace (s @ b) = dropWhile isspace s @ b"
    by (rule dropWhile_append1)
  moreover have "dropWhile isspace (rev b @ rev (dropWhile isspace s))
      = dropWhile isspace (rev (dropWhile isspace s))"
    using assms by (simp add: dropWhile_append dropWhile_all)
  ultimately show ?thesis unfolding strip_def by simp
qed

lemma strip_decomp:
  "\<exists>a b. s = a @ strip s @ b \<and> (\<forall>c \<in> set a. isspace c) \<and> (\<forall>c \<in> set b. isspace c)"
proof -
  let ?a = "takeWhile isspace s"
  let ?d = "dropWhile isspace s"
  let ?b = "rev (takeWhile isspace (rev ?d))"
  have "rev ?d = takeWhile isspace (rev ?d) @ dropWhile isspace (rev ?d)" by simp
  then have "rev (rev ?d) = rev (takeWhile isspace (rev ?d) @ dropWhile isspace (rev ?d))"
    by simp
  then have "?d = strip s @ ?b"
    unfolding strip_def by (simp only: rev_append rev_rev_ident)
  moreover have "s = ?a @ ?d" by simp
  ultimately have "s = ?a @ strip s @ ?b" by simp
  moreover have "\<forall>c \<in> set ?a. isspace c" by (auto dest: set_takeWhileD)
  moreover have "\<forall>c \<in> set ?b. isspace c" by (auto dest: set_takeWhileD)
  ultimately show ?thesis by blast
qed

lemma strip_ends:
  assumes "strip s \<noteq> []"
  shows "\<not> isspace (hd (strip s))" and "\<not> isspace (last (strip s))"
proof -
  let ?d = "dropWhile isspace s"
  let ?e = "dropWhile isspace (rev ?d)"
  have e: "?e \<noteq> []" using assms unfolding strip_def by simp
  have d: "?d \<noteq> []"
  proof
    assume a: "?d = []"
    have "?e = []" by (simp only: a rev.simps dropWhile.simps)
    then show False using e by (simp only:)
  qed
  have hd_d: "\<not> isspace (hd ?d)" using d by (rule hd_dropWhile)
  have "\<not> isspace (hd ?e)" using e by (rule hd_dropWhile)
  then show "\<not> isspace (last (strip s))" unfolding strip_def using e by (simp add: last_rev)
  have "rev ?d = takeWhile isspace (rev ?d) @ ?e" by simp
  then have "rev (rev ?d) = rev (takeWhile isspace (rev ?d) @ ?e)" by simp
  then have "?d = rev ?e @ rev (takeWhile isspace (rev ?d))"
    by (simp only: rev_append rev_rev_ident)
  then have "hd ?d = hd (rev ?e @ rev (takeWhile isspace (rev ?d)))" by simp
  also have "\<dots> = hd (rev ?e)" using e by simp
  finally show "\<not> isspace (hd (strip s))" unfolding strip_def using hd_d by simp
qed

lemma strip_Nil_iff: "(strip s = []) = (\<forall>c \<in> set s. isspace c)"
proof
  assume n: "strip s = []"
  obtain a b where "s = a @ strip s @ b" "\<forall>c \<in> set a. isspace c" "\<forall>c \<in> set b. isspace c"
    using strip_decomp by blast
  then have "s = a @ b" "\<forall>c \<in> set a. isspace c" "\<forall>c \<in> set b. isspace c"
    using n by simp_all
  then show "\<forall>c \<in> set s. isspace c" by auto
next
  assume "\<forall>c \<in> set s. isspace c"
  then show "strip s = []" by (rule strip_all_space)
qed

lemma strip_strip: "strip (strip s) = strip s"
proof (cases "strip s = []")
  case True
  then show ?thesis by (simp add: strip_all_space)
next
  case False
  then show ?thesis using strip_ends [OF False] by (simp add: strip_id)
qed

lemma strip_unique:
  assumes "\<forall>c \<in> set a. isspace c" "\<forall>c \<in> set b. isspace c"
    and "m = [] \<or> (\<not> isspace (hd m) \<and> \<not> isspace (last m))"
  shows "strip (a @ m @ b) = m"
proof -
  have "strip (a @ m @ b) = strip (m @ b)"
    using assms(1) by (rule strip_spaces_left)
  also have "\<dots> = strip m"
    using assms(2) by (rule strip_spaces_right)
  also have "\<dots> = m" using assms(3) by (cases "m = []") (auto simp: strip_id strip_all_space)
  finally show ?thesis .
qed


subsection \<open>Physical lines and statements\<close>

lemma readlines_line: "nl \<notin> set l \<Longrightarrow> readlines (l @ nl # rest) = (l @ [nl]) # readlines rest"
  by (induction l) auto

lemma readlines_ne: "s \<noteq> [] \<Longrightarrow> readlines s \<noteq> []"
  by (cases s) (auto split: list.splits)

lemma readlines_append:
  "a = [] \<or> last a = nl \<Longrightarrow> readlines (a @ b) = readlines a @ readlines b"
proof (induction a)
  case Nil
  show ?case by simp
next
  case (Cons c cs)
  show ?case
  proof (cases "cs = []")
    case True
    then show ?thesis using Cons.prems by simp
  next
    case False
    then have l: "last cs = nl" using Cons.prems by simp
    then have ih: "readlines (cs @ b) = readlines cs @ readlines b"
      using Cons.IH by simp
    obtain x xs where r: "readlines cs = x # xs"
      using readlines_ne [OF False] by (cases "readlines cs") auto
    show ?thesis using ih r by simp
  qed
qed

lemma parse_line_pbuf:
  "parse_line st vexline =
     (case strip vexline of
        [] \<Rightarrow> Inl IndexError
      | c # _ \<Rightarrow>
          if c = CHR ''*'' then
            (case entry_from_text vexline of
               Inl err \<Rightarrow> Inl err
             | Inr e \<Rightarrow> Inr (store_entry st e))
          else if CHR '';'' \<notin> set vexline then
            Inr (st\<lparr>prev_line := Some (pbuf st @ vexline)\<rparr>)
          else dispatch (st\<lparr>prev_line := None\<rparr>) (strip (pbuf st @ vexline)))"
  by (simp add: parse_line_def pbuf_def split: option.splits list.splits)

lemma strip_nl: "strip (s @ [nl]) = strip s"
  by (rule strip_spaces_right) simp

lemma takeWhile_no_nl: "nl \<notin> set l \<Longrightarrow> takeWhile (\<lambda>c. c \<noteq> nl) l = l"
  by (induction l) auto

lemma takeWhile_first_line:
  "nl \<notin> set l \<Longrightarrow> takeWhile (\<lambda>c. c \<noteq> nl) (l @ nl # rest) = l"
  by (induction l) auto

lemma line_ok_first: "nl \<notin> set l \<Longrightarrow> line_ok (l @ nl # rest) = line_ok l"
  by (simp add: line_ok_def takeWhile_no_nl takeWhile_first_line)

lemma line_ok_strip:
  "nl \<notin> set l \<Longrightarrow> line_ok l = (strip l \<noteq> [] \<and> hd (strip l) \<noteq> CHR ''*'')"
  by (simp add: line_ok_def takeWhile_no_nl split: list.splits)

lemma anl_append: "anl (a @ a') b = (anl a (a' @ b) \<and> anl a' b)"
  by (induction a) auto

lemma anl_no_nl: "nl \<notin> set a \<Longrightarrow> anl a b"
  by (induction a) auto

lemma nlsemi_append:
  "nlsemi (a @ b) = (if CHR '';'' \<in> set a then nlsemi a \<and> nl \<notin> set b else nlsemi b)"
  by (induction a) auto

lemma stmt_parse_aux:
  "CHR '';'' \<in> set w \<Longrightarrow> nlsemi w \<Longrightarrow> line_ok w \<Longrightarrow> anl w [] \<Longrightarrow>
     parse_lines st (readlines (w @ [nl]))
       = dispatch (st\<lparr>prev_line := None\<rparr>) (strip (pbuf st @ w))"
proof (induction w arbitrary: st rule: length_induct)
  case (1 w)
  show ?case
  proof (cases "nl \<in> set w")
    case False
    then have r: "readlines (w @ [nl]) = [w @ [nl]]"
      using readlines_line [of w "[]"] by simp
    have "strip w \<noteq> []" "hd (strip w) \<noteq> CHR ''*''"
      using "1.prems"(3) False by (simp_all add: line_ok_strip)
    then obtain c cs where s: "strip (w @ [nl]) = c # cs" "c \<noteq> CHR ''*''"
      by (cases "strip w") (auto simp: strip_nl)
    have "strip (pbuf st @ w @ [nl]) = strip (pbuf st @ w)"
      using strip_nl [of "pbuf st @ w"] by simp
    then show ?thesis
      using r s "1.prems"(1) by (simp add: parse_line_pbuf split: sum.splits)
  next
    case True
    then obtain l w' where w: "w = l @ nl # w'" "nl \<notin> set l"
      by (meson split_list_first)
    have semi: "CHR '';'' \<notin> set l" "nlsemi w'"
      using "1.prems"(2) w by (auto simp: nlsemi_append split: if_splits)
    then have semi': "CHR '';'' \<in> set w'" using "1.prems"(1) w by auto
    have lo: "line_ok l" using "1.prems"(3) w by (simp add: line_ok_first)
    have lo': "line_ok w'" "anl w' []"
      using "1.prems"(4) w by (simp_all add: anl_append)
    have "strip l \<noteq> []" "hd (strip l) \<noteq> CHR ''*''"
      using lo w(2) by (simp_all add: line_ok_strip)
    then obtain c cs where s: "strip (l @ [nl]) = c # cs" "c \<noteq> CHR ''*''"
      by (cases "strip l") (auto simp: strip_nl)
    let ?st = "st\<lparr>prev_line := Some (pbuf st @ l @ [nl])\<rparr>"
    have step: "parse_line st (l @ [nl]) = Inr ?st"
      using s semi(1) by (simp add: parse_line_pbuf)
    have "length w' < length w" using w by simp
    then have ih: "parse_lines ?st (readlines (w' @ [nl]))
        = dispatch (?st\<lparr>prev_line := None\<rparr>) (strip (pbuf ?st @ w'))"
      using "1.IH" semi' semi(2) lo' by blast
    have "readlines (w @ [nl]) = (l @ [nl]) # readlines (w' @ [nl])"
      using w readlines_line [of l "w' @ [nl]"] by simp
    then show ?thesis
      using step ih w by (simp add: pbuf_def)
  qed
qed

lemma stmt_parse:
  "stmt w \<Longrightarrow> prev_line st = None \<Longrightarrow>
     parse_lines st (readlines (w @ [nl])) = dispatch st (strip w)"
proof -
  assume a: "stmt w" and b: "prev_line st = None"
  have eq: "st\<lparr>prev_line := None\<rparr> = st" using b by (cases st) simp
  have "parse_lines st (readlines (w @ [nl]))
      = dispatch (st\<lparr>prev_line := None\<rparr>) (strip w)"
    using a b stmt_parse_aux [of w st] by (simp add: stmt_def pbuf_def)
  then show ?thesis by (simp only: eq)
qed


subsection \<open>An entry that was written is read back\<close>

lemma entry_from_text_split:
  assumes "CHR ''='' \<notin> set k"
    and "strip (k @ ''='' @ r) = c # rest" and "c \<noteq> CHR ''*''"
  shows "entry_from_text (k @ ''='' @ r) =
     (let key = strip k; value = strip r
      in if value = [] then Inl IndexError
         else
           let value = (if last value = CHR '';'' then butlast value else value)
           in if str_in ''ref '' key then
                (if str_count CHR ''$'' key \<noteq> 1 then Inl AssertionError
                 else Inr \<lparr>entry_type = variable,
                            entry_key = Some (strip (str_split CHR ''$'' key ! 1)),
                            entry_value = (if CHR '':'' \<in> set value
                               then StrList (str_split CHR '':'' value) else Str value)\<rparr>)
              else Inr \<lparr>entry_type = parameter, entry_key = Some key,
                         entry_value = (if CHR '':'' \<in> set value
                            then StrList (str_split CHR '':'' value) else Str value)\<rparr>)"
  using assms(2,3) split_first_equals [OF assms(1), of r]
  by (simp add: entry_from_text_def Entry_init_def Let_def)

lemma Entry_str_written:
  "entry_type e \<noteq> comment \<Longrightarrow>
     Entry_str e hs =
       replicate (case hs of None \<Rightarrow> 5 | Some n \<Rightarrow> n) CHR '' '' @ entry_text e @ '';'' @ [nl]"
  by (cases "entry_type e") (simp_all add: Entry_str_def entry_text_def value_text_def
      split: option.splits entry_value.splits)

lemma Entry_str_comment:
  "entry_type e = comment \<Longrightarrow> entry_value e = Str r \<Longrightarrow> Entry_str e hs = ''*'' @ r @ [nl]"
  by (simp add: Entry_str_def)

lemma strip_Cons_ink: "\<not> isspace c \<Longrightarrow> \<exists>u. strip (c # t) = c # u"
proof -
  assume c: "\<not> isspace c"
  have "strip (c # t) \<noteq> []" using c by (auto simp: strip_Nil_iff)
  moreover obtain a b where ab: "c # t = a @ strip (c # t) @ b" "\<forall>x \<in> set a. isspace x"
    using strip_decomp [of "c # t"] by blast
  ultimately have "a = []" using c by (cases a) auto
  then show ?thesis using ab(1) \<open>strip (c # t) \<noteq> []\<close> by (cases "strip (c # t)") auto
qed

lemma line_ok_ink:
  assumes "\<forall>x \<in> set a. isspace x \<and> x \<noteq> nl" "\<not> isspace c"
  shows "line_ok (a @ c # b) = (c \<noteq> CHR ''*'')"
proof -
  have cn: "c \<noteq> nl" using assms(2) by auto
  have "takeWhile (\<lambda>x. x \<noteq> nl) (a @ c # b) = a @ c # takeWhile (\<lambda>x. x \<noteq> nl) b"
    using assms(1) cn by (simp add: takeWhile_append2)
  moreover have "strip (a @ c # takeWhile (\<lambda>x. x \<noteq> nl) b) = strip (c # takeWhile (\<lambda>x. x \<noteq> nl) b)"
    using assms(1) by (intro strip_spaces_left) auto
  moreover obtain u where "strip (c # takeWhile (\<lambda>x. x \<noteq> nl) b) = c # u"
    using strip_Cons_ink [OF assms(2)] by blast
  ultimately show ?thesis by (simp add: line_ok_def)
qed

lemma dispatch_entry:
  assumes "cl = c # cs" "c \<noteq> CHR ''$''" "\<not> opens_block cl" "\<not> closes_block cl"
    and "entry_from_text cl = Inr e"
  shows "dispatch st cl = Inr (store_entry st e)"
  using assms by (auto simp: dispatch_def opens_block_def closes_block_def)

lemma take_space_pattern:
  assumes "take n (k @ CHR '' '' # r) = pat" "length pat = n"
  shows "take n k = pat \<or> (\<exists>rest. pat = k @ CHR '' '' # rest)"
proof (cases "n \<le> length k")
  case True
  then show ?thesis using assms(1) by simp
next
  case False
  then have "take n (k @ CHR '' '' # r) = k @ take (n - length k) (CHR '' '' # r)"
    by simp
  moreover have "n - length k = Suc (n - length k - 1)" using False by simp
  ultimately have "pat = k @ CHR '' '' # take (n - length k - 1) r"
    using assms(1) by (metis take_Suc_Cons)
  then show ?thesis by blast
qed

lemma written_not_block:
  assumes "key_start_ok k" "k \<noteq> ''def''" "k \<noteq> ''scan''"
  shows "\<not> opens_block (k @ CHR '' '' # r)" and "\<not> closes_block (k @ CHR '' '' # r)"
proof -
  have a: "take 4 k \<noteq> ''def ''" "take 5 k \<noteq> ''scan ''" "take 6 k \<noteq> ''enddef''"
    "take 7 k \<noteq> ''endscan''"
    using assms(1) by (simp_all add: key_start_ok_def)
  have d: "take 4 (k @ CHR '' '' # r) \<noteq> ''def ''"
  proof
    assume "take 4 (k @ CHR '' '' # r) = ''def ''"
    then have "take 4 k = ''def '' \<or> (\<exists>rest. ''def '' = k @ CHR '' '' # rest)"
      by (intro take_space_pattern) simp_all
    then show False using a(1) assms(2) by (auto simp: Cons_eq_append_conv)
  qed
  have s: "take 5 (k @ CHR '' '' # r) \<noteq> ''scan ''"
  proof
    assume "take 5 (k @ CHR '' '' # r) = ''scan ''"
    then have "take 5 k = ''scan '' \<or> (\<exists>rest. ''scan '' = k @ CHR '' '' # rest)"
      by (intro take_space_pattern) simp_all
    then show False using a(2) assms(3) by (auto simp: Cons_eq_append_conv)
  qed
  have ed: "take 6 (k @ CHR '' '' # r) \<noteq> ''enddef''"
  proof
    assume "take 6 (k @ CHR '' '' # r) = ''enddef''"
    then have "take 6 k = ''enddef'' \<or> (\<exists>rest. ''enddef'' = k @ CHR '' '' # rest)"
      by (intro take_space_pattern) simp_all
    then show False using a(3) by (auto simp: Cons_eq_append_conv)
  qed
  have es: "take 7 (k @ CHR '' '' # r) \<noteq> ''endscan''"
  proof
    assume "take 7 (k @ CHR '' '' # r) = ''endscan''"
    then have "take 7 k = ''endscan'' \<or> (\<exists>rest. ''endscan'' = k @ CHR '' '' # rest)"
      by (intro take_space_pattern) simp_all
    then show False using a(4) by (auto simp: Cons_eq_append_conv)
  qed
  show "\<not> opens_block (k @ CHR '' '' # r)" using d s by (simp add: opens_block_def)
  show "\<not> closes_block (k @ CHR '' '' # r)" using ed es by (simp add: closes_block_def)
qed


lemma last_semi [simp]: "last (s @ '';'') = CHR '';''"
  by simp

lemma written_value:
  assumes "v = [] \<or> \<not> isspace (hd v)"
  shows "strip ('' '' @ v @ '';'') = v @ '';''"
proof -
  have "strip ('' '' @ (v @ '';'') @ []) = v @ '';''"
    using assms by (intro strip_unique) (auto simp: hd_append)
  then show ?thesis by simp
qed

lemma written_key:
  assumes "m \<noteq> []" "\<not> isspace (hd m)" "\<not> isspace (last m)"
  shows "strip (m @ '' '') = m"
proof -
  have "strip ([] @ m @ '' '') = m"
    using assms by (intro strip_unique) auto
  then show ?thesis by simp
qed

lemma stripped_ends:
  assumes "strip k = k" "k \<noteq> []"
  shows "\<not> isspace (hd k)" "\<not> isspace (last k)"
  using strip_ends [of k] assms by simp_all

lemma str_in_prefix: "str_in ''ref '' (''ref $'' @ k)"
  by simp

lemma variable_key_back:
  assumes "CHR ''$'' \<notin> set k"
  shows "str_count CHR ''$'' (''ref $'' @ k) = 1"
    and "str_split CHR ''$'' (''ref $'' @ k) ! 1 = k"
proof -
  have "filter (\<lambda>x. x = CHR ''$'') k = []" using assms by (induction k) auto
  then show "str_count CHR ''$'' (''ref $'' @ k) = 1"
    by (simp add: str_count_def)
  have "str_split CHR ''$'' (''ref '' @ CHR ''$'' # k) = ''ref '' # str_split CHR ''$'' k"
    by (rule str_split_first) simp
  then show "str_split CHR ''$'' (''ref $'' @ k) ! 1 = k"
    using assms by (simp add: str_split_notin)
qed

lemma entry_from_text_written:
  assumes "CHR ''='' \<notin> set kk" "strip kk = key" "v = [] \<or> \<not> isspace (hd v)"
    and "strip (kk @ ''='' @ ('' '' @ v @ '';'')) = c # rest" "c \<noteq> CHR ''*''"
  shows "entry_from_text (kk @ ''='' @ ('' '' @ v @ '';'')) =
     (if str_in ''ref '' key then
        (if str_count CHR ''$'' key \<noteq> 1 then Inl AssertionError
         else Inr \<lparr>entry_type = variable,
                    entry_key = Some (strip (str_split CHR ''$'' key ! 1)),
                    entry_value = split_value v\<rparr>)
      else Inr \<lparr>entry_type = parameter, entry_key = Some key, entry_value = split_value v\<rparr>)"
proof -
  have sv: "strip ('' '' @ v @ '';'') = v @ '';''"
    using assms(3) by (rule written_value)
  show ?thesis
    unfolding entry_from_text_split [OF assms(1,4,5)] sv assms(2)
    by (simp add: Let_def split_value_def)
qed

lemma entry_stmt:
  assumes "entry_ok e" "entry_type e \<noteq> comment" "\<not> keyword_key e"
  shows "stmt (replicate n CHR '' '' @ entry_text e @ '';'')"
    and "dispatch st (strip (replicate n CHR '' '' @ entry_text e @ '';'')) = Inr (store_entry st e)"
proof -
  let ?ind = "replicate n CHR '' ''"
  let ?v = "value_text (entry_value e)"
  obtain k where k: "entry_key e = Some k" "strip k = k" "CHR ''='' \<notin> set k"
    "if entry_type e = variable then CHR ''$'' \<notin> set k
     else \<not> str_in ''ref '' k \<and> key_start_ok k"
    using assms(1,2) by (auto simp: entry_ok_def split: option.splits)
  have val: "entry_value e = split_value ?v" "?v = [] \<or> \<not> isspace (hd ?v)"
    and ns: "nlsemi (entry_text e)" and an: "anl (entry_text e @ '';'') []"
    using assms(1,2) by (simp_all add: entry_ok_def)
  have ind: "\<forall>x \<in> set ?ind. isspace x" "nl \<notin> set ?ind" "CHR '';'' \<notin> set ?ind"
    by auto
  have sv: "strip ('' '' @ ?v @ '';'') = ?v @ '';''"
    using val(2) by (rule written_value)
  \<comment> \<open>the statement conditions but the first line\<close>
  have st1: "CHR '';'' \<in> set (?ind @ entry_text e @ '';'')" by simp
  have st2: "nlsemi (?ind @ entry_text e @ '';'')"
    using ns ind(3) by (simp add: nlsemi_append)
  have st3: "anl (?ind @ entry_text e @ '';'') []"
    using an ind(2) by (simp add: anl_append anl_no_nl)
  show "stmt (?ind @ entry_text e @ '';'')"
    and "dispatch st (strip (?ind @ entry_text e @ '';'')) = Inr (store_entry st e)"
  proof -
    consider (var) "entry_type e = variable"
      | (par1) "entry_type e = parameter" "k \<noteq> []"
      | (par0) "entry_type e = parameter" "k = []"
      using assms(2) by (cases "entry_type e") auto
    then have "stmt (?ind @ entry_text e @ '';'')
        \<and> dispatch st (strip (?ind @ entry_text e @ '';'')) = Inr (store_entry st e)"
    proof cases
      case var
      let ?T = "''ref $'' @ k @ '' = '' @ ?v @ '';''"
      have et: "entry_text e = ''ref $'' @ k @ '' = '' @ ?v"
        using var k(1) by (simp add: entry_text_def)
      have lo: "line_ok (?ind @ entry_text e @ '';'')"
        using line_ok_ink [of ?ind "CHR ''r''" "''ef $'' @ k @ '' = '' @ ?v @ '';''"]
        unfolding et by (simp add: isspace_def)
      have "strip (?ind @ ?T @ []) = ?T"
        by (intro strip_unique) (auto simp: isspace_def)
      then have T: "strip (?ind @ entry_text e @ '';'') = ?T" unfolding et by simp
      have kk: "strip (''ref $'' @ k @ '' '') = ''ref $'' @ k"
      proof -
        have "\<not> isspace (last (''ref $'' @ k))"
          using stripped_ends(2) [OF k(2)] by (cases "k = []") (simp_all add: isspace_def)
        then show ?thesis
          using written_key [of "''ref $'' @ k"] by (simp add: isspace_def)
      qed
      have h1: "CHR ''='' \<notin> set (''ref $'' @ k @ '' '')" using k(3) by simp
      have h4: "strip ((''ref $'' @ k @ '' '') @ ''='' @ ('' '' @ ?v @ '';''))
          = CHR ''r'' # (''ef $'' @ k @ '' = '' @ ?v @ '';'')"
        using T strip_strip [of "?ind @ entry_text e @ '';''"] by simp
      have h5: "CHR ''r'' \<noteq> CHR ''*''" by simp
      have kd: "CHR ''$'' \<notin> set k" using k(4) var by simp
      have "entry_from_text ((''ref $'' @ k @ '' '') @ ''='' @ ('' '' @ ?v @ '';''))
          = Inr \<lparr>entry_type = variable, entry_key = Some k, entry_value = split_value ?v\<rparr>"
        unfolding entry_from_text_written [OF h1 kk val(2) h4 h5]
        using variable_key_back [OF kd] k(2) by simp
      moreover have "e = \<lparr>entry_type = variable, entry_key = Some k, entry_value = split_value ?v\<rparr>"
        using var k(1) val(1) by (cases e) simp
      ultimately have ef: "entry_from_text ?T = Inr e" by simp
      have "dispatch st ?T = Inr (store_entry st e)"
        using ef by (intro dispatch_entry [where c = "CHR ''r''"])
          (simp_all add: opens_block_def closes_block_def)
      then show ?thesis using st1 st2 st3 lo T by (simp add: stmt_def)
    next
      case par1
      let ?T = "k @ '' = '' @ ?v @ '';''"
      have et: "entry_text e = k @ '' = '' @ ?v"
        using par1 k(1) by (simp add: entry_text_def)
      have kp: "\<not> str_in ''ref '' k" "key_start_ok k" using k(4) par1 by simp_all
      have ke: "\<not> isspace (hd k)" "\<not> isspace (last k)"
        using stripped_ends [OF k(2) par1(2)] by simp_all
      obtain c cs where kc: "k = c # cs" using par1(2) by (cases k) auto
      have c: "\<not> isspace c" "c \<noteq> CHR ''*''" "c \<noteq> CHR ''$''"
        using ke(1) kp(2) kc by (simp_all add: key_start_ok_def)
      have lo: "line_ok (?ind @ entry_text e @ '';'')"
        using line_ok_ink [of ?ind c "cs @ '' = '' @ ?v @ '';''"] c
        unfolding et kc by simp
      have "strip (?ind @ ?T @ []) = ?T"
        using ke(1) par1(2) by (intro strip_unique) (auto simp: hd_append)
      then have T: "strip (?ind @ entry_text e @ '';'') = ?T" unfolding et by simp
      have kk: "strip (k @ '' '') = k"
        using par1(2) ke by (rule written_key)
      have h1: "CHR ''='' \<notin> set (k @ '' '')" using k(3) by simp
      have h4: "strip ((k @ '' '') @ ''='' @ ('' '' @ ?v @ '';'')) = c # (cs @ '' = '' @ ?v @ '';'')"
        using T strip_strip [of "?ind @ entry_text e @ '';''"] kc by simp
      have "entry_from_text ((k @ '' '') @ ''='' @ ('' '' @ ?v @ '';''))
          = Inr \<lparr>entry_type = parameter, entry_key = Some k, entry_value = split_value ?v\<rparr>"
        unfolding entry_from_text_written [OF h1 kk val(2) h4 c(2)]
        using kp(1) by simp
      moreover have "e = \<lparr>entry_type = parameter, entry_key = Some k, entry_value = split_value ?v\<rparr>"
        using par1(1) k(1) val(1) by (cases e) simp
      ultimately have ef: "entry_from_text ?T = Inr e" by simp
      have nk: "k \<noteq> ''def''" "k \<noteq> ''scan''"
        using assms(3) par1(1) k(1) by (auto simp: keyword_key_def)
      have "\<not> opens_block (k @ CHR '' '' # (''= '' @ ?v @ '';''))"
        "\<not> closes_block (k @ CHR '' '' # (''= '' @ ?v @ '';''))"
        using written_not_block [OF kp(2) nk] by simp_all
      then have "\<not> opens_block ?T" "\<not> closes_block ?T" by simp_all
      then have "dispatch st ?T = Inr (store_entry st e)"
        using ef c(3) kc by (intro dispatch_entry [where c = c and cs = "cs @ '' = '' @ ?v @ '';''"]) simp_all
      then show ?thesis using st1 st2 st3 lo T by (simp add: stmt_def)
    next
      case par0
      let ?T = "''= '' @ ?v @ '';''"
      have et: "entry_text e = '' = '' @ ?v"
        using par0 k(1) by (simp add: entry_text_def)
      have lo: "line_ok (?ind @ entry_text e @ '';'')"
        using line_ok_ink [of "?ind @ '' ''" "CHR ''=''" "'' '' @ ?v @ '';''"]
        unfolding et by simp
      have "strip ((?ind @ '' '') @ ?T @ []) = ?T"
        by (intro strip_unique) auto
      then have T: "strip (?ind @ entry_text e @ '';'') = ?T" unfolding et by simp
      have h1: "CHR ''='' \<notin> set ([] :: string)" by simp
      have h2: "strip [] = ([] :: string)" by (simp add: strip_all_space)
      have h4: "strip ([] @ ''='' @ ('' '' @ ?v @ '';'')) = CHR ''='' # ('' '' @ ?v @ '';'')"
        using T strip_strip [of "?ind @ entry_text e @ '';''"] by simp
      have h5: "CHR ''='' \<noteq> CHR ''*''" by simp
      have "entry_from_text ([] @ ''='' @ ('' '' @ ?v @ '';''))
          = Inr \<lparr>entry_type = parameter, entry_key = Some [], entry_value = split_value ?v\<rparr>"
        unfolding entry_from_text_written [OF h1 h2 val(2) h4 h5] by simp
      moreover have "e = \<lparr>entry_type = parameter, entry_key = Some [], entry_value = split_value ?v\<rparr>"
        using par0 k(1) val(1) by (cases e) simp
      ultimately have ef: "entry_from_text ?T = Inr e" by simp
      have "dispatch st ?T = Inr (store_entry st e)"
        using ef by (intro dispatch_entry [where c = "CHR ''=''"])
          (simp_all add: opens_block_def closes_block_def)
      then show ?thesis using st1 st2 st3 lo T by (simp add: stmt_def)
    qed
    then show "stmt (?ind @ entry_text e @ '';'')"
      and "dispatch st (strip (?ind @ entry_text e @ '';'')) = Inr (store_entry st e)"
      by simp_all
  qed
qed


subsection \<open>A container that was written is read back\<close>

lemma store_entry_prev: "prev_line (store_entry st e) = prev_line st"
  by (simp add: store_entry_def split: option.splits)

lemma Entry_str_last: "Entry_str e hs \<noteq> [] \<and> last (Entry_str e hs) = nl"
  by (cases "entry_type e") (simp_all add: Entry_str_def)

lemma parse_entry_str:
  assumes "entry_ok e" "\<not> keyword_key e" "prev_line st = None"
  shows "parse_lines st (readlines (Entry_str e hs)) = Inr (store_entry st e)"
proof (cases "entry_type e = comment")
  case False
  let ?n = "case hs of None \<Rightarrow> 5 | Some n \<Rightarrow> n"
  have "Entry_str e hs = (replicate ?n CHR '' '' @ entry_text e @ '';'') @ [nl]"
    using False by (simp add: Entry_str_written)
  then show ?thesis
    using stmt_parse [OF entry_stmt(1) [OF assms(1) False assms(2)] assms(3), of ?n]
      entry_stmt(2) [OF assms(1) False assms(2), of st ?n]
    by simp
next
  case True
  then obtain r where r: "entry_key e = None" "entry_value e = Str r" "nl \<notin> set r"
    "r = [] \<or> \<not> isspace (last r)"
    using assms(1) by (auto simp: entry_ok_def split: entry_value.splits)
  have es: "Entry_str e hs = (''*'' @ r) @ [nl]"
    using True r(2) by (simp add: Entry_str_comment)
  have rl: "readlines ((''*'' @ r) @ [nl]) = [(''*'' @ r) @ [nl]]"
    using readlines_line [of "''*'' @ r" "[]"] r(3) by simp
  have "strip ([] @ (''*'' @ r) @ [nl]) = ''*'' @ r"
    using r(4) by (intro strip_unique) auto
  then have sl: "strip ((''*'' @ r) @ [nl]) = CHR ''*'' # r" by simp
  have "e = \<lparr>entry_type = comment, entry_key = None, entry_value = Str r\<rparr>"
    using True r(1,2) by (cases e) simp
  then have "entry_from_text ((''*'' @ r) @ [nl]) = Inr e"
    using sl by (simp add: entry_from_text_def Entry_init_def)
  then have "parse_line st ((''*'' @ r) @ [nl]) = Inr (store_entry st e)"
    using sl by (simp add: parse_line_def)
  then show ?thesis unfolding es rl by simp
qed

lemma parse_entries_str:
  assumes "list_all entry_ok es" "list_all (\<lambda>e. \<not> keyword_key e) es" "prev_line st = None"
  shows "parse_lines st (readlines (concat (map (\<lambda>e. Entry_str e hs) es)))
       = Inr (foldl store_entry st es)"
  using assms
proof (induction es arbitrary: st)
  case Nil
  show ?case by simp
next
  case (Cons e es)
  have a: "parse_lines st (readlines (Entry_str e hs)) = Inr (store_entry st e)"
    using Cons.prems by (intro parse_entry_str) simp_all
  have "readlines (Entry_str e hs @ concat (map (\<lambda>e. Entry_str e hs) es))
      = readlines (Entry_str e hs) @ readlines (concat (map (\<lambda>e. Entry_str e hs) es))"
    using Entry_str_last [of e hs] by (intro readlines_append) simp
  moreover have "parse_lines (store_entry st e) (readlines (concat (map (\<lambda>e. Entry_str e hs) es)))
      = Inr (foldl store_entry (store_entry st e) es)"
    using Cons.prems by (intro Cons.IH) (simp_all add: store_entry_prev)
  ultimately show ?case using a by (simp add: parse_lines_append)
qed

lemma foldl_store_entry_def:
  "current_definition st = Some d \<Longrightarrow>
     foldl store_entry st es = st\<lparr>current_definition := Some (foldl add_entry d es)\<rparr>"
proof (induction es arbitrary: st d)
  case Nil
  then show ?case by (cases st) simp
next
  case (Cons e es)
  have "store_entry st e = st\<lparr>current_definition := Some (add_entry d e)\<rparr>"
    using Cons.prems by (simp add: store_entry_def)
  then show ?case using Cons.IH [of "st\<lparr>current_definition := Some (add_entry d e)\<rparr>" "add_entry d e"]
    by simp
qed

lemma takeWhile_until: "c \<notin> set a \<Longrightarrow> takeWhile (\<lambda>x. x \<noteq> c) (a @ c # b) = a"
  by (induction a) auto

lemma str_index_first:
  "c \<notin> set a \<Longrightarrow> str_index c (a @ c # b) = Inr (length a)"
  by (simp add: str_index_def takeWhile_until)

lemma slice_mid: "slice (length p) (length p + length n) (p @ n @ t) = n"
  by (simp add: slice_def)

lemma header_stmt:
  assumes "name_ok n" "nl \<notin> set p" "CHR '';'' \<notin> set p" "p = c # p'" "\<not> isspace c" "c \<noteq> CHR ''*''"
  shows "stmt (p @ n @ '';'')" and "strip (p @ n @ '';'') = p @ n @ '';''"
proof -
  have "line_ok ([] @ c # (p' @ n @ '';''))"
    using assms(5,6) by (subst line_ok_ink) simp_all
  then have "line_ok (p @ n @ '';'')" using assms(4) by simp
  moreover have "nlsemi (p @ n @ '';'')"
    using assms(1,3) by (simp add: nlsemi_append name_ok_def)
  moreover have "anl (p @ n @ '';'') []"
    using assms(1,2) by (simp add: anl_append anl_no_nl name_ok_def)
  ultimately show "stmt (p @ n @ '';'')" by (simp add: stmt_def)
  have "strip ([] @ (p @ n @ '';'') @ []) = p @ n @ '';''"
    using assms(4,5) by (intro strip_unique) auto
  then show "strip (p @ n @ '';'') = p @ n @ '';''" by simp
qed

lemma dispatch_def_header:
  assumes "CHR '';'' \<notin> set n" "current_definition st = None"
  shows "dispatch st (''def '' @ n @ '';'')
       = Inr (st\<lparr>current_definition := Some (Definition_init n)\<rparr>)"
proof -
  have "str_index CHR '';'' ((''def '' @ n) @ CHR '';'' # []) = Inr (length (''def '' @ n))"
    using assms(1) by (intro str_index_first) simp
  then have i: "str_index CHR '';'' (''def '' @ n @ '';'') = Inr (4 + length n)" by simp
  have "slice 4 (4 + length n) (''def '' @ n @ '';'') = n"
    using slice_mid [of "''def ''" n "'';''"] by (simp add: eval_nat_numeral)
  then show ?thesis using assms(2) i by (simp add: dispatch_def)
qed

lemma dispatch_scan_header:
  assumes "CHR '';'' \<notin> set n" "current_definition st = None"
  shows "dispatch st (''scan '' @ n @ '';'')
       = Inr (st\<lparr>current_definition := Some (Scan_init n)\<rparr>)"
proof -
  have "str_index CHR '';'' ((''scan '' @ n) @ CHR '';'' # []) = Inr (length (''scan '' @ n))"
    using assms(1) by (intro str_index_first) simp
  then have i: "str_index CHR '';'' (''scan '' @ n @ '';'') = Inr (5 + length n)" by simp
  have "slice 5 (5 + length n) (''scan '' @ n @ '';'') = n"
    using slice_mid [of "''scan ''" n "'';''"] by (simp add: eval_nat_numeral)
  then show ?thesis using assms(2) i by (simp add: dispatch_def)
qed

lemma dispatch_section_header:
  assumes "CHR '';'' \<notin> set n"
  shows "dispatch st (''$'' @ n @ '';'')
       = Inr (st\<lparr>self_vex := seal st, current_section := Some (Section_init n)\<rparr>)"
proof -
  have "str_index CHR '';'' ((''$'' @ n) @ CHR '';'' # []) = Inr (length (''$'' @ n))"
    using assms(1) by (intro str_index_first) simp
  then have i: "str_index CHR '';'' (''$'' @ n @ '';'') = Inr (1 + length n)" by simp
  have "slice 1 (1 + length n) (''$'' @ n @ '';'') = n"
    using slice_mid [of "''$''" n "'';''"] by simp
  then show ?thesis using i
    by (cases st) (simp add: dispatch_def seal_def split: option.splits)
qed

lemma dispatch_footer:
  assumes "current_definition st = Some d" "current_section st = Some s"
  shows "dispatch st ''enddef;''
       = Inr (st\<lparr>current_section := Some (add_definition s (Sec_Definition d)),
               current_definition := None\<rparr>)"
    and "dispatch st ''endscan;''
       = Inr (st\<lparr>current_section := Some (add_definition s (Sec_Definition d)),
               current_definition := None\<rparr>)"
  using assms by (simp_all add: dispatch_def)

lemma footer_stmt: "stmt ''enddef;''" "stmt ''endscan;''"
  "strip ''enddef;'' = ''enddef;''" "strip ''endscan;'' = ''endscan;''"
proof -
  have "name_ok []" by (simp add: name_ok_def line_ok_def)
  then show "stmt ''enddef;''" "stmt ''endscan;''"
    "strip ''enddef;'' = ''enddef;''" "strip ''endscan;'' = ''endscan;''"
    using header_stmt [of "[]" "''enddef''" "CHR ''e''" "''nddef''"]
      header_stmt [of "[]" "''endscan''" "CHR ''e''" "''ndscan''"]
    by (simp_all add: isspace_def)
qed

lemma slot_str_entries: "slot_str s = concat (map (\<lambda>e. Entry_str e None) (slot_entries s))"
  by (cases s) (simp_all add: slot_str_def)

lemma slots_str_entries:
  "concat (map slot_str xs) = concat (map (\<lambda>e. Entry_str e None) (concat (map slot_entries xs)))"
  by (induction xs) (simp_all add: slot_str_entries)

lemma def_body_entries:
  "concat (map slot_str (od_values (def_entries d)))
     = concat (map (\<lambda>e. Entry_str e None) (def_all_entries d))"
  unfolding def_all_entries_def by (rule slots_str_entries)

lemma entries_str_last:
  "concat (map (\<lambda>e. Entry_str e hs) es) = [] \<or> last (concat (map (\<lambda>e. Entry_str e hs) es)) = nl"
proof (induction es rule: rev_induct)
  case Nil
  show ?case by simp
next
  case (snoc e es)
  show ?case using Entry_str_last [of e hs] by simp
qed

lemma Definition_init_empty:
  "def_class d = Definition_class \<Longrightarrow>
     Definition_init (def_name d) = d\<lparr>def_entries := [], def_number_comments := 0\<rparr>"
  "def_class d = Scan_class \<Longrightarrow>
     Scan_init (def_name d) = d\<lparr>def_entries := [], def_number_comments := 0\<rparr>"
  by (cases d; simp add: Definition_init_def Scan_init_def)+

lemma parse_definition_str:
  assumes "def_ok d" "def_canonical d" "list_all (\<lambda>e. \<not> keyword_key e) (def_all_entries d)"
    and "prev_line st = None" "current_definition st = None" "current_section st = Some s"
  shows "parse_lines st (readlines (Definition_str d))
       = Inr (st\<lparr>current_section := Some (add_definition s (Sec_Definition d))\<rparr>)"
proof -
  let ?n = "def_name d"
  let ?es = "def_all_entries d"
  let ?B = "concat (map (\<lambda>e. Entry_str e None) ?es)"
  let ?H = "(case def_class d of Definition_class \<Rightarrow> ''def '' | Scan_class \<Rightarrow> ''scan '') @ ?n @ '';''"
  let ?F = "(case def_class d of Definition_class \<Rightarrow> ''enddef;'' | Scan_class \<Rightarrow> ''endscan;'')"
  let ?d0 = "d\<lparr>def_entries := [], def_number_comments := 0\<rparr>"
  let ?st1 = "st\<lparr>current_definition := Some ?d0\<rparr>"
  let ?st2 = "st\<lparr>current_definition := Some d\<rparr>"
  have nok: "name_ok ?n" and eok: "list_all entry_ok ?es"
    using assms(1) by (simp_all add: def_ok_def)
  have semi: "CHR '';'' \<notin> set ?n" using nok by (simp add: name_ok_def)
  have str: "Definition_str d = (?H @ [nl]) @ ?B @ (?F @ [nl])"
    by (simp add: Definition_str_def def_body_entries split: def_class.splits)
  have hs: "stmt ?H" "strip ?H = ?H"
    using header_stmt [OF nok, of "''def ''" "CHR ''d''" "''ef ''"]
      header_stmt [OF nok, of "''scan ''" "CHR ''s''" "''can ''"]
    by (cases "def_class d"; simp add: isspace_def)+
  have "dispatch st ?H = Inr ?st1"
    using dispatch_def_header [OF semi assms(5)] dispatch_scan_header [OF semi assms(5)]
      Definition_init_empty [of d]
    by (cases "def_class d") simp_all
  then have p1: "parse_lines st (readlines (?H @ [nl])) = Inr ?st1"
    using stmt_parse [OF hs(1) assms(4)] hs(2) by simp
  have "parse_lines ?st1 (readlines ?B) = Inr (foldl store_entry ?st1 ?es)"
    using eok assms(3,4) by (intro parse_entries_str) simp_all
  moreover have "foldl store_entry ?st1 ?es = ?st1\<lparr>current_definition := Some (foldl add_entry ?d0 ?es)\<rparr>"
    by (rule foldl_store_entry_def) simp
  moreover have "foldl add_entry ?d0 ?es = d"
    using assms(2) by (simp add: def_canonical_def)
  ultimately have p2: "parse_lines ?st1 (readlines ?B) = Inr ?st2" by simp
  have fs: "stmt ?F" "strip ?F = ?F"
    using footer_stmt by (cases "def_class d"; simp)+
  have "dispatch ?st2 ?F
      = Inr (?st2\<lparr>current_section := Some (add_definition s (Sec_Definition d)),
               current_definition := None\<rparr>)"
    using dispatch_footer [of ?st2 d s] assms(6) by (cases "def_class d") simp_all
  moreover have "?st2\<lparr>current_section := Some (add_definition s (Sec_Definition d)),
               current_definition := None\<rparr>
      = st\<lparr>current_section := Some (add_definition s (Sec_Definition d))\<rparr>"
    using assms(5) by (cases st) simp
  ultimately have p3: "parse_lines ?st2 (readlines (?F @ [nl]))
      = Inr (st\<lparr>current_section := Some (add_definition s (Sec_Definition d))\<rparr>)"
    using stmt_parse [OF fs(1), of ?st2] fs(2) assms(4) by simp
  have "readlines ((?H @ [nl]) @ ?B @ (?F @ [nl])) = readlines (?H @ [nl]) @ readlines (?B @ (?F @ [nl]))"
    by (intro readlines_append) simp
  moreover have "readlines (?B @ (?F @ [nl])) = readlines ?B @ readlines (?F @ [nl])"
    using entries_str_last [of None ?es] by (intro readlines_append) simp
  ultimately show ?thesis
    unfolding str using p1 p2 p3 by (simp add: parse_lines_append)
qed


lemma Definition_str_last: "Definition_str d \<noteq> [] \<and> last (Definition_str d) = nl"
  by (cases "def_class d") (simp_all add: Definition_str_def)

lemma sec_child_str_last: "sec_child_str c \<noteq> [] \<and> last (sec_child_str c) = nl"
  using Definition_str_last Entry_str_last by (cases c) (simp_all add: sec_child_str_def)

lemma concat_last_nl:
  assumes "\<And>x. f x \<noteq> [] \<and> last (f x) = nl"
  shows "concat (map f xs) = [] \<or> last (concat (map f xs)) = nl"
proof (induction xs rule: rev_induct)
  case Nil
  show ?case by simp
next
  case (snoc x xs)
  show ?case using assms [of x] by simp
qed

lemma store_entry_section:
  "current_definition st = None \<Longrightarrow> current_section st = Some s \<Longrightarrow>
     store_entry st e = st\<lparr>current_section := Some (add_definition s (Sec_Entry e))\<rparr>"
  by (simp add: store_entry_def)

lemma store_entry_top:
  "current_definition st = None \<Longrightarrow> current_section st = None \<Longrightarrow>
     store_entry st e = st\<lparr>self_vex := add_section (self_vex st) (Vex_Entry e)\<rparr>"
  by (simp add: store_entry_def)

lemma parse_sec_children:
  assumes "list_all sec_child_ok cs" "list_all sec_child_canonical cs"
    and "list_all (\<lambda>e. \<not> keyword_key e) (concat (map sec_child_entries cs))"
    and "prev_line st = None" "current_definition st = None" "current_section st = Some s"
  shows "parse_lines st (readlines (concat (map sec_child_str cs)))
       = Inr (st\<lparr>current_section := Some (foldl add_definition s cs)\<rparr>)"
  using assms
proof (induction cs arbitrary: st s)
  case Nil
  then show ?case by (cases st) simp
next
  case (Cons c cs)
  let ?st1 = "st\<lparr>current_section := Some (add_definition s c)\<rparr>"
  have p1: "parse_lines st (readlines (sec_child_str c)) = Inr ?st1"
  proof (cases c)
    case (Sec_Definition d)
    then show ?thesis
      using Cons.prems parse_definition_str [of d st s]
      by (simp add: sec_child_str_def sec_child_ok_def sec_child_canonical_def
          sec_child_entries_def)
  next
    case (Sec_Entry e)
    then show ?thesis
      using Cons.prems parse_entry_str [of e st None] store_entry_section [of st s e]
      by (simp add: sec_child_str_def sec_child_ok_def sec_child_entries_def)
  qed
  have p2: "parse_lines ?st1 (readlines (concat (map sec_child_str cs)))
      = Inr (?st1\<lparr>current_section := Some (foldl add_definition (add_definition s c) cs)\<rparr>)"
    using Cons.prems by (intro Cons.IH) simp_all
  have "readlines (sec_child_str c @ concat (map sec_child_str cs))
      = readlines (sec_child_str c) @ readlines (concat (map sec_child_str cs))"
    using sec_child_str_last [of c] by (intro readlines_append) simp
  then show ?case using p1 p2 by (simp add: parse_lines_append)
qed

lemma Section_init_empty:
  "Section_init (sec_name s) = s\<lparr>sec_definitions := [], sec_number_comments := 0\<rparr>"
  by (cases s) (simp add: Section_init_def)

lemma parse_section_str:
  assumes "sec_ok s" "sec_canonical s"
    and "list_all (\<lambda>e. \<not> keyword_key e) (sec_all_entries s)"
    and "prev_line st = None" "current_definition st = None"
  shows "parse_lines st (readlines (Section_str s))
       = Inr (st\<lparr>self_vex := seal st, current_section := Some s\<rparr>)"
proof -
  let ?n = "sec_name s"
  let ?cs = "od_values (sec_definitions s)"
  let ?H = "''$'' @ ?n @ '';''"
  let ?st1 = "st\<lparr>self_vex := seal st, current_section := Some (Section_init ?n)\<rparr>"
  have nok: "name_ok ?n" and cok: "list_all sec_child_ok ?cs"
    using assms(1) by (simp_all add: sec_ok_def)
  have semi: "CHR '';'' \<notin> set ?n" using nok by (simp add: name_ok_def)
  have str: "Section_str s = (?H @ [nl]) @ concat (map sec_child_str ?cs)"
    by (simp add: Section_str_def)
  have hs: "stmt ?H" "strip ?H = ?H"
    using header_stmt [OF nok, of "''$''" "CHR ''$''" "[]"] by (simp_all add: isspace_def)
  have p1: "parse_lines st (readlines (?H @ [nl])) = Inr ?st1"
    using stmt_parse [OF hs(1) assms(4)] hs(2) dispatch_section_header [OF semi, of st] by simp
  have "parse_lines ?st1 (readlines (concat (map sec_child_str ?cs)))
      = Inr (?st1\<lparr>current_section := Some (foldl add_definition (Section_init ?n) ?cs)\<rparr>)"
    using cok assms(2,3,4,5)
    by (intro parse_sec_children) (simp_all add: sec_canonical_def sec_all_entries_def)
  moreover have "foldl add_definition (Section_init ?n) ?cs = s"
    using assms(2) by (simp add: sec_canonical_def Section_init_empty)
  ultimately have p2: "parse_lines ?st1 (readlines (concat (map sec_child_str ?cs)))
      = Inr (st\<lparr>self_vex := seal st, current_section := Some s\<rparr>)"
    by simp
  have "readlines ((?H @ [nl]) @ concat (map sec_child_str ?cs))
      = readlines (?H @ [nl]) @ readlines (concat (map sec_child_str ?cs))"
    by (intro readlines_append) simp
  then show ?thesis unfolding str using p1 p2 by (simp add: parse_lines_append)
qed

lemma Section_str_last: "Section_str s \<noteq> [] \<and> last (Section_str s) = nl"
proof -
  have "concat (map sec_child_str (od_values (sec_definitions s))) = []
      \<or> last (concat (map sec_child_str (od_values (sec_definitions s)))) = nl"
    by (rule concat_last_nl) (rule sec_child_str_last)
  then show ?thesis by (auto simp: Section_str_def)
qed

lemma parse_sections:
  assumes "list_all sec_ok ss" "list_all sec_canonical ss"
    and "list_all (\<lambda>e. \<not> keyword_key e) (concat (map sec_all_entries ss))"
    and "prev_line st = None" "current_definition st = None"
  shows "\<exists>st'. parse_lines st (readlines (concat (map Section_str ss))) = Inr st'
       \<and> seal st' = foldl add_section (seal st) (map Vex_Section ss)"
  using assms
proof (induction ss arbitrary: st)
  case Nil
  show ?case by simp
next
  case (Cons s ss)
  let ?st1 = "st\<lparr>self_vex := seal st, current_section := Some s\<rparr>"
  have p1: "parse_lines st (readlines (Section_str s)) = Inr ?st1"
    using Cons.prems by (intro parse_section_str) simp_all
  have s1: "seal ?st1 = add_section (seal st) (Vex_Section s)"
    by (simp add: seal_def)
  obtain st' where p2: "parse_lines ?st1 (readlines (concat (map Section_str ss))) = Inr st'"
    "seal st' = foldl add_section (seal ?st1) (map Vex_Section ss)"
    using Cons.IH [of ?st1] Cons.prems by auto
  have "readlines (Section_str s @ concat (map Section_str ss))
      = readlines (Section_str s) @ readlines (concat (map Section_str ss))"
    using Section_str_last [of s] by (intro readlines_append) simp
  then have "parse_lines st (readlines (concat (map Section_str (s # ss)))) = Inr st'"
    using p1 p2(1) by (simp add: parse_lines_append)
  then show ?case using p2(2) s1 by simp
qed


lemma all_sections_split:
  assumes "list_all (\<lambda>c. case c of Vex_Entry e \<Rightarrow> False | _ \<Rightarrow> True) xs"
    and "list_all vex_child_ok xs"
  shows "\<exists>ss. xs = map Vex_Section ss"
  using assms
proof (induction xs)
  case Nil
  show ?case by simp
next
  case (Cons x xs)
  then obtain ss where xs: "xs = map Vex_Section ss" by auto
  obtain s' where x: "x = Vex_Section s'"
    using Cons.prems by (cases x) (simp_all add: vex_child_ok_def)
  show ?case using x xs by (intro exI [of _ "s' # ss"]) simp
qed

lemma entries_first_split:
  assumes "entries_first cs" "list_all vex_child_ok cs"
  shows "\<exists>es ss. cs = map Vex_Entry es @ map Vex_Section ss"
  using assms
proof (induction cs)
  case Nil
  show ?case by simp
next
  case (Cons c cs)
  show ?case
  proof (cases c)
    case (Vex_Entry e)
    then obtain es ss where "cs = map Vex_Entry es @ map Vex_Section ss"
      using Cons by auto
    then show ?thesis using Vex_Entry by (intro exI [of _ "e # es"] exI [of _ ss]) simp
  next
    case (Vex_Section s)
    have "\<exists>ss. c # cs = map Vex_Section ss"
      using Cons.prems Vex_Section by (intro all_sections_split) simp_all
    then obtain ss where "c # cs = map Vex_Section ss" by (erule exE)
    then show ?thesis by (intro exI [of _ "[]"] exI [of _ ss]) simp
  next
    case (Vex_Definition d)
    then show ?thesis using Cons.prems by (simp add: vex_child_ok_def)
  qed
qed

lemma foldl_store_entry_top:
  "current_definition st = None \<Longrightarrow> current_section st = None \<Longrightarrow>
     foldl store_entry st es
       = st\<lparr>self_vex := foldl add_section (self_vex st) (map Vex_Entry es)\<rparr>"
proof (induction es arbitrary: st)
  case Nil
  then show ?case by (cases st) simp
next
  case (Cons e es)
  have "store_entry st e = st\<lparr>self_vex := add_section (self_vex st) (Vex_Entry e)\<rparr>"
    using Cons.prems by (rule store_entry_top)
  then show ?case
    using Cons.IH [of "st\<lparr>self_vex := add_section (self_vex st) (Vex_Entry e)\<rparr>"] Cons.prems
    by simp
qed

lemma from_lines_seal:
  "parse_lines (parser_init v) ls = Inr st \<Longrightarrow> from_lines v ls = Inr (seal st)"
  by (simp add: from_lines_def seal_def split: option.splits)

lemma Vex_empty_name:
  "Vex_empty (vex_name v) = v\<lparr>vex_sections := [], vex_number_comments := 0\<rparr>"
  by (cases v) (simp add: Vex_empty_def)

lemma vex_written_read:
  assumes "vex_ok v" "vex_canonical v"
    and "list_all (\<lambda>e. \<not> keyword_key e) (vex_all_entries v)"
  shows "from_file (Vex_empty (vex_name v)) (Vex_str v) = Inr v"
proof -
  let ?cs = "od_values (vex_sections v)"
  let ?init = "parser_init (Vex_empty (vex_name v))"
  have cok: "list_all vex_child_ok ?cs" using assms(1) by (simp add: vex_ok_def)
  have can: "foldl add_section (Vex_empty (vex_name v)) ?cs = v"
    "list_all vex_child_canonical ?cs" "entries_first ?cs"
    using assms(2) by (simp_all add: vex_canonical_def Vex_empty_name)
  obtain es ss where cs: "?cs = map Vex_Entry es @ map Vex_Section ss"
    using entries_first_split [OF can(3) cok] by blast
  let ?E = "concat (map (\<lambda>e. Entry_str e (Some 0)) es)"
  let ?S = "concat (map Section_str ss)"
  have str: "Vex_str v = ?E @ ?S"
    unfolding Vex_str_def cs by (simp add: vex_child_str_def comp_def)
  have eok: "list_all entry_ok es" "list_all sec_ok ss"
    using cok unfolding cs by (simp_all add: list.pred_map comp_def vex_child_ok_def)
  have scan: "list_all sec_canonical ss"
    using can(2) unfolding cs by (simp add: list.pred_map comp_def vex_child_canonical_def)
  have kw: "list_all (\<lambda>e. \<not> keyword_key e) es"
    "list_all (\<lambda>e. \<not> keyword_key e) (concat (map sec_all_entries ss))"
    using assms(3) unfolding vex_all_entries_def cs
    by (simp_all add: list_all_iff vex_child_entries_def comp_def)
  let ?st1 = "?init\<lparr>self_vex := foldl add_section (Vex_empty (vex_name v)) (map Vex_Entry es)\<rparr>"
  have "parse_lines ?init (readlines ?E) = Inr (foldl store_entry ?init es)"
    using eok(1) kw(1) by (intro parse_entries_str) (simp_all add: parser_init_def)
  moreover have "foldl store_entry ?init es = ?st1"
    using foldl_store_entry_top [of ?init es] by (simp add: parser_init_def)
  ultimately have p1: "parse_lines ?init (readlines ?E) = Inr ?st1" by simp
  obtain st' where p2: "parse_lines ?st1 (readlines ?S) = Inr st'"
    "seal st' = foldl add_section (seal ?st1) (map Vex_Section ss)"
    using parse_sections [OF eok(2) scan kw(2), of ?st1] by (auto simp: parser_init_def)
  have "seal ?st1 = foldl add_section (Vex_empty (vex_name v)) (map Vex_Entry es)"
    by (simp add: seal_def parser_init_def)
  then have "seal st' = v" using p2(2) can(1) unfolding cs by simp
  moreover have "readlines (?E @ ?S) = readlines ?E @ readlines ?S"
    using entries_str_last [of "Some 0" es] by (intro readlines_append) simp
  then have "parse_lines ?init (readlines (Vex_str v)) = Inr st'"
    unfolding str using p1 p2(1) by (simp add: parse_lines_append)
  ultimately show ?thesis
    unfolding from_file_def using from_lines_seal [of "Vex_empty (vex_name v)" "readlines (Vex_str v)" st']
    by simp
qed


subsection \<open>What the parser builds\<close>

lemma od_values_od_set: "set (od_values (od_set k v d)) \<subseteq> insert v (set (od_values d))"
  unfolding od_values_def by (induction d) auto

lemma add_entry_entries:
  "set (def_all_entries (add_entry d e)) \<subseteq> insert e (set (def_all_entries d))"
proof -
  have get: "od_get (def_entries d) k = Some x \<Longrightarrow> x \<in> set (od_values (def_entries d))" for k x
    unfolding od_get_def od_values_def by (auto dest: map_of_SomeD intro: rev_image_eqI)
  show ?thesis
  proof (cases "entry_type e = comment")
    case True
    then show ?thesis
      using od_values_od_set [of "comment_key (def_number_comments d + 1)" "One e" "def_entries d"]
      by (auto simp: add_entry_def def_all_entries_def Let_def)
  next
    case False
    show ?thesis
    proof (cases "od_get (def_entries d) (entry_key e)")
      case None
      then show ?thesis
        using False od_values_od_set [of "entry_key e" "One e" "def_entries d"]
        by (auto simp: add_entry_def def_all_entries_def)
    next
      case (Some x)
      show ?thesis
      proof (cases x)
        case (One e0)
        then show ?thesis
          using False Some get [OF Some]
            od_values_od_set [of "entry_key e" "Many [e0, e]" "def_entries d"]
          by (fastforce simp: add_entry_def def_all_entries_def)
      next
        case (Many es)
        then show ?thesis
          using False Some get [OF Some]
            od_values_od_set [of "entry_key e" "Many (es @ [e])" "def_entries d"]
          by (fastforce simp: add_entry_def def_all_entries_def)
      qed
    qed
  qed
qed

lemma add_entry_name: "def_name (add_entry d e) = def_name d"
  by (simp add: add_entry_def Let_def split: option.splits slot.splits)

lemma add_entry_ok: "def_ok d \<Longrightarrow> entry_ok e \<Longrightarrow> def_ok (add_entry d e)"
  using add_entry_entries [of d e] by (auto simp: def_ok_def add_entry_name list_all_iff)

lemma add_definition_ok: "sec_ok s \<Longrightarrow> sec_child_ok c \<Longrightarrow> sec_ok (add_definition s c)"
proof -
  assume a: "sec_ok s" "sec_child_ok c"
  have "\<exists>k. sec_definitions (add_definition s c) = od_set k c (sec_definitions s)"
    by (auto simp: add_definition_def Let_def split: sec_child.splits)
  then obtain k where "sec_definitions (add_definition s c) = od_set k c (sec_definitions s)"
    by (erule exE)
  moreover have "sec_name (add_definition s c) = sec_name s"
    by (simp add: add_definition_def Let_def split: sec_child.splits)
  ultimately show ?thesis
    using a od_values_od_set [of k c "sec_definitions s"]
    by (auto simp: sec_ok_def list_all_iff)
qed

lemma add_section_ok: "vex_ok v \<Longrightarrow> vex_child_ok c \<Longrightarrow> vex_ok (add_section v c)"
proof -
  assume a: "vex_ok v" "vex_child_ok c"
  have "\<exists>k. vex_sections (add_section v c) = od_set k c (vex_sections v)"
    by (auto simp: add_section_def Let_def split: vex_child.splits)
  then obtain k where "vex_sections (add_section v c) = od_set k c (vex_sections v)"
    by (erule exE)
  then show ?thesis
    using a od_values_od_set [of k c "vex_sections v"]
    by (auto simp: vex_ok_def list_all_iff)
qed

lemma add_section_name: "vex_name (add_section v c) = vex_name v"
  by (simp add: add_section_def Let_def split: vex_child.splits)

lemma store_entry_ok: "state_ok st \<Longrightarrow> entry_ok e \<Longrightarrow> state_ok (store_entry st e)"
  by (auto simp: state_ok_def store_entry_def add_entry_ok add_definition_ok add_section_ok
      sec_child_ok_def vex_child_ok_def split: option.splits)

lemma store_entry_name: "vex_name (self_vex (store_entry st e)) = vex_name (self_vex st)"
  by (simp add: store_entry_def add_section_name split: option.splits)

lemma line_ok_has_ink:
  assumes "\<exists>x \<in> set a. \<not> isspace x"
  shows "line_ok (a @ b) = line_ok (a @ b')"
proof -
  obtain a1 c a2 where a: "a = a1 @ c # a2" "\<not> isspace c" "\<forall>y \<in> set a1. \<not> \<not> isspace y"
    using split_list_first_prop [OF assms] by blast
  show ?thesis
  proof (cases "nl \<in> set a1")
    case True
    then obtain u u' where u: "a1 = u @ nl # u'" "nl \<notin> set u"
      by (meson split_list_first)
    have "line_ok (u @ nl # (u' @ c # a2 @ b)) = line_ok u"
      "line_ok (u @ nl # (u' @ c # a2 @ b')) = line_ok u"
      by (rule line_ok_first [OF u(2)])+
    then show ?thesis unfolding a(1) u(1) by simp
  next
    case False
    then have sp: "\<forall>x \<in> set a1. isspace x \<and> x \<noteq> nl" using a(3) by auto
    have "line_ok (a1 @ c # (a2 @ b)) = (c \<noteq> CHR ''*'')"
      "line_ok (a1 @ c # (a2 @ b')) = (c \<noteq> CHR ''*'')"
      by (rule line_ok_ink [OF sp a(2)])+
    then show ?thesis unfolding a(1) by simp
  qed
qed

lemma anl_ink_end:
  "a = [] \<or> \<not> isspace (last a) \<Longrightarrow> anl a b = anl a b'"
proof (induction a)
  case Nil
  show ?case by simp
next
  case (Cons c cs)
  show ?case
  proof (cases "cs = []")
    case True
    then have "c \<noteq> nl" using Cons.prems by auto
    then show ?thesis using True by simp
  next
    case False
    then have l: "\<not> isspace (last cs)" using Cons.prems by simp
    then have "\<exists>x \<in> set cs. \<not> isspace x" using False last_in_set by blast
    then have "line_ok (cs @ b) = line_ok (cs @ b')" by (rule line_ok_has_ink)
    moreover have "anl cs b = anl cs b'" using Cons.IH l by simp
    ultimately show ?thesis by simp
  qed
qed

lemma anl_cont_ink: "\<not> isspace c \<Longrightarrow> anl a (c # y) = anl a [c]"
proof (induction a)
  case Nil
  show ?case by simp
next
  case (Cons x xs)
  have "line_ok ((xs @ [c]) @ y) = line_ok ((xs @ [c]) @ [])"
    using Cons.prems by (intro line_ok_has_ink) auto
  then show ?case using Cons by simp
qed

lemma line_ok_cut: "line_ok (w @ nl # y) = line_ok (w @ [nl])"
  by (simp add: line_ok_def takeWhile_tail)

lemma anl_cont_nl: "anl a (nl # y) = anl a [nl]"
  by (induction a) (simp_all add: line_ok_cut [of _ y])

lemma nlsemi_no_semi: "CHR '';'' \<notin> set s \<Longrightarrow> nlsemi s"
  by (induction s) auto

lemma nlsemi_no_nl: "nl \<notin> set s \<Longrightarrow> nlsemi s"
  by (induction s) auto

lemma spaces_no_marks:
  assumes "\<forall>x \<in> set a. isspace x"
  shows "CHR '';'' \<notin> set a" "CHR ''='' \<notin> set a" "CHR ''$'' \<notin> set a"
  using assms by (auto simp: isspace_def)

lemma line_ok_no_leading_nl:
  assumes "line_ok (a @ s)" "\<forall>x \<in> set a. isspace x"
  shows "nl \<notin> set a"
proof
  assume "nl \<in> set a"
  then obtain u u' where u: "a = u @ nl # u'" "nl \<notin> set u"
    by (meson split_list_first)
  have "line_ok (u @ nl # (u' @ s)) = line_ok u" using u(2) by (rule line_ok_first)
  moreover have "strip u = []" using assms(2) u(1) by (simp add: strip_all_space)
  ultimately show False using assms(1) u by (simp add: line_ok_strip)
qed

lemma stmt_strip:
  assumes "stmt w"
  shows "\<exists>c cs. strip w = c # cs \<and> \<not> isspace c \<and> c \<noteq> CHR ''*''"
    and "CHR '';'' \<in> set (strip w)" and "nlsemi (strip w)" and "anl (strip w) []"
    and "\<not> isspace (last (strip w))"
proof -
  obtain a b where ab: "w = a @ strip w @ b" "\<forall>x \<in> set a. isspace x" "\<forall>x \<in> set b. isspace x"
    using strip_decomp [of w] by blast
  have w: "CHR '';'' \<in> set w" "nlsemi w" "line_ok w" "anl w []"
    using assms by (simp_all add: stmt_def)
  have sa: "CHR '';'' \<notin> set a" and sb: "CHR '';'' \<notin> set b"
    using ab(2,3) spaces_no_marks(1) by blast+
  show semi: "CHR '';'' \<in> set (strip w)"
    using w(1) sa sb by (subst (asm) ab(1)) auto
  then have ne: "strip w \<noteq> []" by auto
  then obtain c cs where c: "strip w = c # cs" by (cases "strip w") auto
  have ink: "\<not> isspace c" "\<not> isspace (last (strip w))"
    using strip_ends [OF ne] c by simp_all
  show "\<not> isspace (last (strip w))" by (rule ink(2))
  have "nlsemi (a @ strip w @ b)" using w(2) ab(1) by simp
  then show "nlsemi (strip w)" using sa semi by (simp add: nlsemi_append)
  have "anl (a @ strip w @ b) []" using w(4) ab(1) by simp
  then have "anl (strip w) b" by (simp add: anl_append)
  then show "anl (strip w) []" using anl_ink_end [of "strip w" b "[]"] ink(2) by simp
  have "line_ok (a @ (strip w @ b))" using w(3) ab(1) by simp
  then have na: "nl \<notin> set a" using ab(2) by (rule line_ok_no_leading_nl)
  have "line_ok (a @ c # (cs @ b)) = (c \<noteq> CHR ''*'')"
    using na ab(2) ink(1) by (intro line_ok_ink) auto
  then have "c \<noteq> CHR ''*''" using w(3) ab(1) c by simp
  then show "\<exists>c cs. strip w = c # cs \<and> \<not> isspace c \<and> c \<noteq> CHR ''*''"
    using c ink(1) by blast
qed

lemma value_text_split: "value_text (split_value v) = v"
  by (simp add: value_text_def split_value_def str_join_split [of "CHR '':''" v, simplified])

lemma name_from_line:
  assumes "anl (p @ n @ CHR '';'' # rest) []" "CHR '';'' \<notin> set n"
  shows "name_ok n"
proof -
  have "anl n (CHR '';'' # rest)" using assms(1) by (simp add: anl_append)
  then have "anl n '';''" using anl_cont_ink [of "CHR '';''" n rest] by simp
  then show ?thesis using assms(2) by (simp add: name_ok_def anl_append)
qed

lemma index_slice:
  assumes "take j L = p" "length p = j" "c \<notin> set p" "str_index c L = Inr i"
  shows "\<exists>n rest. L = p @ n @ c # rest \<and> c \<notin> set n \<and> slice j i L = n"
proof -
  have L: "L = p @ drop j L" using assms(1) by (metis append_take_drop_id)
  have "c \<in> set L" using assms(4) by (simp add: str_index_def split: if_splits)
  then have "c \<in> set (drop j L)" using L assms(3) by (metis Un_iff set_append)
  then obtain n rest where r: "drop j L = n @ c # rest" "c \<notin> set n"
    by (meson split_list_first)
  have L': "L = (p @ n) @ c # rest" using L r(1) by simp
  have "str_index c ((p @ n) @ c # rest) = Inr (length (p @ n))"
    using assms(3) r(2) by (intro str_index_first) simp
  then have i: "i = length p + length n" using assms(4) L' by simp
  have "slice (length p) (length p + length n) (p @ n @ (c # rest)) = n" by (rule slice_mid)
  then have "slice j i L = n" using i assms(2) L' by simp
  then show ?thesis using L' r(2) by auto
qed


lemma pieces_ok:
  assumes ns: "nlsemi (p @ k @ m @ v @ sfx)" and an: "anl (p @ k @ m @ v @ sfx) []"
    and m: "CHR '';'' \<notin> set m"
    and k: "k = [] \<or> \<not> isspace (last k)"
    and sfx: "sfx = '';'' \<or> (sfx = [] \<and> v \<noteq> [] \<and> \<not> isspace (last v))"
    and q: "nl \<notin> set q" "CHR '';'' \<notin> set q"
  shows "nlsemi (q @ k @ '' = '' @ v)" and "anl (q @ k @ '' = '' @ v @ '';'') []"
proof -
  show "nlsemi (q @ k @ '' = '' @ v)"
  proof (cases "CHR '';'' \<in> set p")
    case True
    then have "nl \<notin> set (k @ m @ v @ sfx)" using ns by (simp add: nlsemi_append)
    then have "nl \<notin> set (q @ k @ '' = '' @ v)" using q(1) by simp
    then show ?thesis by (rule nlsemi_no_nl)
  next
    case False
    then have n1: "nlsemi (k @ m @ v @ sfx)" using ns by (simp add: nlsemi_append)
    show ?thesis
    proof (cases "CHR '';'' \<in> set k")
      case True
      then have "nlsemi k" "nl \<notin> set v" using n1 by (simp_all add: nlsemi_append)
      then show ?thesis using True q(2) by (simp add: nlsemi_append)
    next
      case False
      then have n2: "nlsemi (v @ sfx)" using n1 m by (simp add: nlsemi_append)
      have "nlsemi v"
      proof (cases "CHR '';'' \<in> set v")
        case True
        then show ?thesis using n2 by (simp add: nlsemi_append)
      next
        case False
        then show ?thesis by (rule nlsemi_no_semi)
      qed
      then show ?thesis using False q(2) by (simp add: nlsemi_append)
    qed
  qed
  have a1: "anl k (m @ v @ sfx)" and a2: "anl v sfx"
    using an by (simp_all add: anl_append)
  have "anl k ('' = '' @ v @ '';'')"
    using a1 anl_ink_end [OF k, of "m @ v @ sfx" "'' = '' @ v @ '';''"] by simp
  moreover have "anl v '';''"
  proof (cases "sfx = '';''")
    case True
    then show ?thesis using a2 by simp
  next
    case False
    then have "sfx = []" "v = [] \<or> \<not> isspace (last v)" using sfx by auto
    then show ?thesis using a2 anl_ink_end [of v "[]" "'';''"] by simp
  qed
  ultimately show "anl (q @ k @ '' = '' @ v @ '';'') []"
    using q(1) by (simp add: anl_append anl_no_nl)
qed

lemma prefix_take:
  assumes "take n k = pat" "length pat = n"
  shows "take n (k @ z) = pat"
proof -
  have "length (take n k) = n" using assms by simp
  then have "n \<le> length k" by simp
  then show ?thesis using assms(1) by simp
qed

lemma key_start_from_line:
  assumes "L = k @ z" "L = c # cs" "c \<noteq> CHR ''*''" "c \<noteq> CHR ''$''"
    and "\<not> opens_block L" "\<not> closes_block L"
  shows "key_start_ok k"
proof -
  have "k = [] \<or> hd k = c" using assms(1,2) by (cases k) auto
  moreover have "take 4 k \<noteq> ''def ''"
  proof
    assume "take 4 k = ''def ''"
    then have "take 4 (k @ z) = ''def ''" by (rule prefix_take) simp
    then show False using assms(1,5) by (simp add: opens_block_def)
  qed
  moreover have "take 5 k \<noteq> ''scan ''"
  proof
    assume "take 5 k = ''scan ''"
    then have "take 5 (k @ z) = ''scan ''" by (rule prefix_take) simp
    then show False using assms(1,5) by (simp add: opens_block_def)
  qed
  moreover have "take 6 k \<noteq> ''enddef''"
  proof
    assume "take 6 k = ''enddef''"
    then have "take 6 (k @ z) = ''enddef''" by (rule prefix_take) simp
    then show False using assms(1,6) by (simp add: closes_block_def)
  qed
  moreover have "take 7 k \<noteq> ''endscan''"
  proof
    assume "take 7 k = ''endscan''"
    then have "take 7 (k @ z) = ''endscan''" by (rule prefix_take) simp
    then show False using assms(1,6) by (simp add: closes_block_def)
  qed
  ultimately show ?thesis using assms(3,4) by (auto simp: key_start_ok_def)
qed


lemma str_count_append: "str_count c (a @ b) = str_count c a + str_count c b"
  by (simp add: str_count_def)

lemma str_count_zero: "(str_count c s = 0) = (c \<notin> set s)"
  using str_count_pos [of c s] by auto

lemma entry_from_text_ok:
  assumes L: "L = c # cs" "\<not> isspace c" "c \<noteq> CHR ''*''" "c \<noteq> CHR ''$''"
      "\<not> isspace (last L)"
    and ns: "nlsemi L" and an: "anl L []"
    and nb: "\<not> opens_block L" "\<not> closes_block L"
    and e: "entry_from_text L = Inr e"
  shows "entry_ok e"
proof -
  have sL: "strip L = c # cs"
    using L(1,2,5) strip_id [of L] by simp
  have "CHR ''='' \<in> set L"
    using e sL L(3) str_count_pos [of "CHR ''=''" L]
    by (auto simp: entry_from_text_def split: if_splits)
  then obtain rk rv where rk: "L = rk @ CHR ''='' # rv" "CHR ''='' \<notin> set rk"
    by (meson split_list_first)
  define key0 where "key0 = strip rk"
  define sv where "sv = strip rv"
  define v where "v = (if last sv = CHR '';'' then butlast sv else sv)"
  define sfx where "sfx = (if last sv = CHR '';'' then '';'' else [])"
  have sL': "strip (rk @ ''='' @ rv) = c # cs" using sL rk(1) by simp
  have eq: "entry_from_text L =
     (if sv = [] then Inl IndexError
      else if str_in ''ref '' key0 then
             (if str_count CHR ''$'' key0 \<noteq> 1 then Inl AssertionError
              else Inr \<lparr>entry_type = variable,
                         entry_key = Some (strip (str_split CHR ''$'' key0 ! 1)),
                         entry_value = split_value v\<rparr>)
           else Inr \<lparr>entry_type = parameter, entry_key = Some key0,
                      entry_value = split_value v\<rparr>)"
    using entry_from_text_split [OF rk(2) sL' L(3)] rk(1)
    by (simp add: key0_def sv_def v_def split_value_def Let_def)
  have svne: "sv \<noteq> []" using e eq by (auto split: if_splits)
  have svv: "sv = v @ sfx"
    using svne by (simp add: v_def sfx_def) (metis append_butlast_last_id)
  have sfx: "sfx = '';'' \<or> (sfx = [] \<and> v \<noteq> [] \<and> \<not> isspace (last v))"
    using svne strip_ends(2) [of rv] by (auto simp: v_def sfx_def sv_def)
  have vhd: "v = [] \<or> \<not> isspace (hd v)"
    using svne strip_ends(1) [of rv] svv by (cases v) (auto simp: sv_def)
  \<comment> \<open>the raw key is the stripped key and whitespace\<close>
  obtain a w1 where a: "rk = a @ key0 @ w1" "\<forall>x \<in> set a. isspace x" "\<forall>x \<in> set w1. isspace x"
    using strip_decomp [of rk] key0_def by blast
  have "a = []"
  proof (rule ccontr)
    assume "a \<noteq> []"
    then have "hd L = hd a" "hd a \<in> set a" using rk(1) a(1) by simp_all
    then show False using L(1,2) a(2) by auto
  qed
  then have rk': "rk = key0 @ w1" using a(1) by simp
  \<comment> \<open>the raw value is whitespace and the stripped value\<close>
  obtain w2 w3 where w: "rv = w2 @ sv @ w3" "\<forall>x \<in> set w2. isspace x" "\<forall>x \<in> set w3. isspace x"
    using strip_decomp [of rv] sv_def by blast
  have "w3 = []"
  proof (rule ccontr)
    assume "w3 \<noteq> []"
    then have "last L = last w3" "last w3 \<in> set w3" using rk(1) w(1) by simp_all
    then show False using L(5) w(3) by auto
  qed
  then have Ld: "L = key0 @ (w1 @ CHR ''='' # w2) @ v @ sfx"
    using rk(1) rk' w(1) svv by simp
  have m: "CHR '';'' \<notin> set (w1 @ CHR ''='' # w2)"
    using spaces_no_marks(1) [OF a(3)] spaces_no_marks(1) [OF w(2)] by simp
  have k0: "strip key0 = key0" "CHR ''='' \<notin> set key0"
  proof -
    show "strip key0 = key0" by (simp add: key0_def strip_strip)
    show "CHR ''='' \<notin> set key0" using rk(2) rk' by auto
  qed
  have k0e: "key0 = [] \<or> \<not> isspace (last key0)"
    using strip_ends(2) [of rk] by (auto simp: key0_def)
  have val: "split_value v = split_value (value_text (split_value v))"
    by (simp add: value_text_split)
  show ?thesis
  proof (cases "str_in ''ref '' key0")
    case False
    then have ev: "e = \<lparr>entry_type = parameter, entry_key = Some key0,
        entry_value = split_value v\<rparr>"
      using e eq svne by simp
    have et: "entry_text e = key0 @ '' = '' @ v"
      by (simp add: ev entry_text_def value_text_split)
    have "nlsemi ([] @ key0 @ (w1 @ CHR ''='' # w2) @ v @ sfx)"
      "anl ([] @ key0 @ (w1 @ CHR ''='' # w2) @ v @ sfx) []"
      using ns an Ld by simp_all
    from pieces_ok [OF this m k0e sfx, of "[]"]
    have "nlsemi (entry_text e)" "anl (entry_text e @ '';'') []"
      unfolding et by simp_all
    moreover have "key_start_ok key0"
      using Ld L(1,3,4) nb by (intro key_start_from_line [of L key0 _ c cs]) simp_all
    ultimately show ?thesis
      using False k0 vhd val by (simp add: entry_ok_def ev value_text_split)
  next
    case True
    then have c1: "str_count CHR ''$'' key0 = 1" using e eq svne by (auto split: if_splits)
    define k where "k = strip (str_split CHR ''$'' key0 ! 1)"
    have ev: "e = \<lparr>entry_type = variable, entry_key = Some k, entry_value = split_value v\<rparr>"
      using e eq svne True c1 by (simp add: k_def)
    have "CHR ''$'' \<in> set key0" using c1 str_count_pos [of "CHR ''$''" key0] by simp
    then obtain a' b' where ab: "key0 = a' @ CHR ''$'' # b'" "CHR ''$'' \<notin> set a'"
      by (meson split_list_first)
    have "str_count CHR ''$'' b' = 0"
      using c1 ab str_count_zero [of "CHR ''$''" a']
      by (simp add: str_count_append) (simp add: str_count_def)
    then have b: "CHR ''$'' \<notin> set b'" by (simp add: str_count_zero)
    have "str_split CHR ''$'' key0 = a' # str_split CHR ''$'' b'"
      unfolding ab(1) using ab(2) by (rule str_split_first)
    then have kb: "k = strip b'" using b by (simp add: k_def str_split_notin)
    obtain x y where xy: "b' = x @ k @ y" "\<forall>z \<in> set x. isspace z" "\<forall>z \<in> set y. isspace z"
      using strip_decomp [of b'] kb by blast
    have Lv: "L = (a' @ CHR ''$'' # x) @ k @ (y @ w1 @ CHR ''='' # w2) @ v @ sfx"
      using Ld ab(1) xy(1) by simp
    have m': "CHR '';'' \<notin> set (y @ w1 @ CHR ''='' # w2)"
      using m spaces_no_marks(1) [OF xy(3)] by simp
    have ke: "k = [] \<or> \<not> isspace (last k)"
      using strip_ends(2) [of b'] by (auto simp: kb)
    have et: "entry_text e = ''ref $'' @ k @ '' = '' @ v"
      by (simp add: ev entry_text_def value_text_split)
    have "nlsemi ((a' @ CHR ''$'' # x) @ k @ (y @ w1 @ CHR ''='' # w2) @ v @ sfx)"
      "anl ((a' @ CHR ''$'' # x) @ k @ (y @ w1 @ CHR ''='' # w2) @ v @ sfx) []"
      using ns an Lv by simp_all
    from pieces_ok [OF this m' ke sfx, of "''ref $''"]
    have "nlsemi (entry_text e)" "anl (entry_text e @ '';'') []"
      unfolding et by simp_all
    moreover have "strip k = k" by (simp add: kb strip_strip)
    moreover have "CHR ''='' \<notin> set k" "CHR ''$'' \<notin> set k"
      using k0(2) ab(1) xy(1) b by auto
    ultimately show ?thesis
      using vhd val by (simp add: entry_ok_def ev value_text_split)
  qed
qed


lemma Section_init_ok: "name_ok n \<Longrightarrow> sec_ok (Section_init n)"
  by (simp add: sec_ok_def Section_init_def od_values_def)

lemma Definition_init_ok: "name_ok n \<Longrightarrow> def_ok (Definition_init n)" "name_ok n \<Longrightarrow> def_ok (Scan_init n)"
  by (simp_all add: def_ok_def Definition_init_def Scan_init_def def_all_entries_def od_values_def)

lemma seal_ok: "state_ok st \<Longrightarrow> vex_ok (seal st)"
  by (auto simp: state_ok_def seal_def add_section_ok vex_child_ok_def split: option.splits)

lemma seal_name: "vex_name (seal st) = vex_name (self_vex st)"
  by (simp add: seal_def add_section_name split: option.splits)

lemma dispatch_ok:
  assumes ok: "state_ok st" and w: "stmt w" and d: "dispatch st (strip w) = Inr st'"
  shows "state_ok st'" and "prev_line st' = prev_line st"
    and "vex_name (self_vex st') = vex_name (self_vex st)"
proof -
  let ?L = "strip w"
  obtain c cs where L: "?L = c # cs" "\<not> isspace c" "c \<noteq> CHR ''*''"
    using stmt_strip(1) [OF w] by blast
  have Lp: "CHR '';'' \<in> set ?L" "nlsemi ?L" "anl ?L []" "\<not> isspace (last ?L)"
    using stmt_strip(2-5) [OF w] by simp_all
  have name: "name_ok (slice j i ?L)"
    if h: "take j ?L = p" "length p = j" "CHR '';'' \<notin> set p" "str_index CHR '';'' ?L = Inr i"
    for j i p
  proof -
    obtain n rest where n: "?L = p @ n @ CHR '';'' # rest" "CHR '';'' \<notin> set n" "slice j i ?L = n"
      using index_slice [OF h] by blast
    have "anl (p @ n @ CHR '';'' # rest) []" using Lp(3) n(1) by simp
    then show ?thesis using n(2,3) name_from_line by simp
  qed
  consider (sec) "c = CHR ''$''"
    | (def) "c \<noteq> CHR ''$''" "take 4 ?L = ''def ''"
    | (enddef) "c \<noteq> CHR ''$''" "take 4 ?L \<noteq> ''def ''" "take 6 ?L = ''enddef''"
    | (scan) "c \<noteq> CHR ''$''" "take 4 ?L \<noteq> ''def ''" "take 6 ?L \<noteq> ''enddef''"
        "take 5 ?L = ''scan ''"
    | (endscan) "c \<noteq> CHR ''$''" "take 4 ?L \<noteq> ''def ''" "take 6 ?L \<noteq> ''enddef''"
        "take 5 ?L \<noteq> ''scan ''" "take 7 ?L = ''endscan''"
    | (entry) "c \<noteq> CHR ''$''" "take 4 ?L \<noteq> ''def ''" "take 6 ?L \<noteq> ''enddef''"
        "take 5 ?L \<noteq> ''scan ''" "take 7 ?L \<noteq> ''endscan''"
    by blast
  then have "state_ok st' \<and> prev_line st' = prev_line st
      \<and> vex_name (self_vex st') = vex_name (self_vex st)"
  proof cases
    case sec
    then obtain i where i: "str_index CHR '';'' ?L = Inr i"
      and st': "st' = st\<lparr>self_vex := seal st,
          current_section := Some (Section_init (slice 1 i ?L))\<rparr>"
      using d L(1)
      by (cases st) (auto simp: dispatch_def seal_def split: sum.splits option.splits)
    have "take 1 ?L = ''$''" using sec L(1) by simp
    then have "name_ok (slice 1 i ?L)" using i by (intro name [of 1 "''$''"]) simp_all
    then show ?thesis
      using ok seal_ok [OF ok] unfolding st'
      by (simp add: state_ok_def Section_init_ok seal_name)
  next
    case def
    then obtain i where i: "str_index CHR '';'' ?L = Inr i"
      and st': "st' = st\<lparr>current_definition := Some (Definition_init (slice 4 i ?L))\<rparr>"
      using d L(1) by (auto simp: dispatch_def split: sum.splits if_splits)
    have "name_ok (slice 4 i ?L)" using i def(2) by (intro name [of 4 "''def ''"]) simp_all
    then show ?thesis
      using ok unfolding st' by (simp add: state_ok_def Definition_init_ok)
  next
    case scan
    then obtain i where i: "str_index CHR '';'' ?L = Inr i"
      and st': "st' = st\<lparr>current_definition := Some (Scan_init (slice 5 i ?L))\<rparr>"
      using d L(1) by (auto simp: dispatch_def split: sum.splits if_splits)
    have "name_ok (slice 5 i ?L)" using i scan(4) by (intro name [of 5 "''scan ''"]) simp_all
    then show ?thesis
      using ok unfolding st' by (simp add: state_ok_def Definition_init_ok)
  next
    case enddef
    then obtain dd s where ds: "current_definition st = Some dd" "current_section st = Some s"
      and st': "st' = st\<lparr>current_section := Some (add_definition s (Sec_Definition dd)),
          current_definition := None\<rparr>"
      using d L(1) by (auto simp: dispatch_def split: option.splits)
    have "sec_ok (add_definition s (Sec_Definition dd))"
      using ok ds by (intro add_definition_ok) (simp_all add: state_ok_def sec_child_ok_def)
    then show ?thesis using ok unfolding st' by (simp add: state_ok_def)
  next
    case endscan
    then obtain dd s where ds: "current_definition st = Some dd" "current_section st = Some s"
      and st': "st' = st\<lparr>current_section := Some (add_definition s (Sec_Definition dd)),
          current_definition := None\<rparr>"
      using d L(1) by (auto simp: dispatch_def split: option.splits)
    have "sec_ok (add_definition s (Sec_Definition dd))"
      using ok ds by (intro add_definition_ok) (simp_all add: state_ok_def sec_child_ok_def)
    then show ?thesis using ok unfolding st' by (simp add: state_ok_def)
  next
    case entry
    then obtain e where e: "entry_from_text ?L = Inr e" and st': "st' = store_entry st e"
      using d L(1) by (auto simp: dispatch_def split: sum.splits)
    have "entry_ok e"
      using L entry Lp e
      by (intro entry_from_text_ok [of ?L c cs]) (simp_all add: opens_block_def closes_block_def)
    then show ?thesis
      using ok unfolding st' by (simp add: store_entry_ok store_entry_prev store_entry_name)
  qed
  then show "state_ok st'" and "prev_line st' = prev_line st"
    and "vex_name (self_vex st') = vex_name (self_vex st)"
    by simp_all
qed


lemma set_strip: "set (strip s) \<subseteq> set s"
  unfolding strip_def by (auto dest!: set_dropWhileD)

lemma comment_line_ok:
  assumes "nl \<notin> set l0" "strip l0 = CHR ''*'' # rest"
  shows "entry_ok \<lparr>entry_type = comment, entry_key = None, entry_value = Str rest\<rparr>"
proof -
  have "nl \<notin> set rest" using assms set_strip [of l0] by auto
  moreover have "rest = [] \<or> \<not> isspace (last rest)"
    using strip_ends(2) [of l0] assms(2) by (cases "rest = []") simp_all
  ultimately show ?thesis by (simp add: entry_ok_def)
qed

lemma buf_line_stmt:
  assumes b: "buf_ok b" and l0: "nl \<notin> set l0" "strip l0 = c # cs" "c \<noteq> CHR ''*''"
  shows "t = [] \<or> t = [nl] \<Longrightarrow> line_ok (b @ l0 @ t)"
    and "anl (b @ l0) [nl]" and "anl (b @ l0) []"
proof -
  have lo: "line_ok l0" using l0 by (simp add: line_ok_strip)
  then have lo': "line_ok (l0 @ [nl])" using line_ok_first [OF l0(1), of "[]"] by simp
  have al: "anl l0 x" for x using l0(1) by (rule anl_no_nl)
  show "line_ok (b @ l0 @ t)" if t: "t = [] \<or> t = [nl]"
  proof (cases "b = []")
    case True
    then show ?thesis using lo lo' t by auto
  next
    case False
    then have bb: "b = butlast b @ [nl]" "line_ok b"
      using b by (auto simp: buf_ok_def) (metis append_butlast_last_id)
    have "line_ok (butlast b @ nl # (l0 @ t)) = line_ok (butlast b @ [nl])" by (rule line_ok_cut)
    then show ?thesis using bb by (metis append.assoc append_Cons append_Nil)
  qed
  show "anl (b @ l0) [nl]" and "anl (b @ l0) []"
  proof -
    have "anl (b @ l0) [nl] \<and> anl (b @ l0) []"
    proof (cases "b = []")
      case True
      then show ?thesis using al by simp
    next
      case False
      then have bb: "b = butlast b @ [nl]" "anl (butlast b) [nl]"
        using b by (auto simp: buf_ok_def) (metis append_butlast_last_id)
      have "anl (butlast b) (nl # l0 @ [nl])" "anl (butlast b) (nl # l0)"
        using bb(2) anl_cont_nl [of "butlast b"] by simp_all
      then have "anl ((butlast b @ [nl]) @ l0) [nl]" "anl ((butlast b @ [nl]) @ l0) []"
        using al lo lo' by (simp_all add: anl_append)
      then show ?thesis using bb(1) by simp
    qed
    then show "anl (b @ l0) [nl]" and "anl (b @ l0) []" by simp_all
  qed
qed


lemma parse_line_ok:
  assumes ok: "state_ok st" and b: "buf_ok (pbuf st)" and l: "phys l"
    and p: "parse_line st l = Inr st'"
  shows "state_ok st'" and "last l = nl \<Longrightarrow> buf_ok (pbuf st')"
    and "vex_name (self_vex st') = vex_name (self_vex st)"
proof -
  define l0 where "l0 = (if last l = nl then butlast l else l)"
  define t where "t = (if last l = nl then [nl] else [])"
  have lt: "l = l0 @ t"
    using l by (simp add: l0_def t_def phys_def) (metis append_butlast_last_id)
  have t: "t = [] \<or> t = [nl]" by (simp add: t_def)
  have n0: "nl \<notin> set l0"
  proof (cases "last l = nl")
    case True
    then show ?thesis using l by (simp add: l0_def phys_def)
  next
    case False
    have "l = butlast l @ [last l]" using l by (simp add: phys_def)
    then have "set l = set (butlast l) \<union> {last l}"
      by (metis list.simps(15) set_append empty_set)
    then show ?thesis using l False by (auto simp: l0_def phys_def)
  qed
  have sl: "strip l = strip l0" using lt t strip_nl [of l0] by auto
  obtain c cs where c: "strip l0 = c # cs"
    using p sl by (cases "strip l0") (simp_all add: parse_line_pbuf)
  have "state_ok st' \<and> (last l = nl \<longrightarrow> buf_ok (pbuf st'))
      \<and> vex_name (self_vex st') = vex_name (self_vex st)"
  proof (cases "c = CHR ''*''")
    case True
    then have "entry_from_text l = Inr \<lparr>entry_type = comment, entry_key = None,
        entry_value = Str cs\<rparr>"
      using c sl by (simp add: entry_from_text_def Entry_init_def)
    then have st': "st' = store_entry st \<lparr>entry_type = comment, entry_key = None,
        entry_value = Str cs\<rparr>"
      using p c sl True by (simp add: parse_line_pbuf)
    have "entry_ok \<lparr>entry_type = comment, entry_key = None, entry_value = Str cs\<rparr>"
      using n0 c True by (intro comment_line_ok [of l0]) simp_all
    then show ?thesis
      using ok b unfolding st' by (simp add: store_entry_ok pbuf_def store_entry_prev store_entry_name)
  next
    case False
    note bl = buf_line_stmt [OF b n0 c False]
    show ?thesis
    proof (cases "CHR '';'' \<in> set l")
      case False
      then have st': "st' = st\<lparr>prev_line := Some (pbuf st @ l)\<rparr>"
        using p c sl \<open>c \<noteq> CHR ''*''\<close> by (simp add: parse_line_pbuf)
      have "buf_ok (pbuf st @ l)" if e: "last l = nl"
      proof -
        have l': "l = l0 @ [nl]" using lt e by (simp add: t_def)
        have "CHR '';'' \<notin> set (pbuf st)" using b by (auto simp: buf_ok_def)
        moreover have "line_ok (pbuf st @ l0 @ [nl])" using bl(1) by simp
        moreover have "anl (pbuf st @ l0) [nl]" by (rule bl(2))
        ultimately show ?thesis using False l' by (simp add: buf_ok_def butlast_append)
      qed
      then show ?thesis using ok unfolding st' by (simp add: state_ok_def pbuf_def)
    next
      case True
      let ?w = "pbuf st @ l0"
      have d: "dispatch (st\<lparr>prev_line := None\<rparr>) (strip (pbuf st @ l)) = Inr st'"
        using p c sl False True by (simp add: parse_line_pbuf)
      have "strip (?w @ t) = strip ?w" using t strip_nl [of ?w] by auto
      then have d': "dispatch (st\<lparr>prev_line := None\<rparr>) (strip ?w) = Inr st'"
        using d lt by simp
      have s0: "CHR '';'' \<in> set l0" using True lt t by auto
      have "CHR '';'' \<notin> set (pbuf st)" using b by (auto simp: buf_ok_def)
      then have "nlsemi ?w" using n0 by (simp add: nlsemi_append nlsemi_no_nl)
      moreover have "line_ok ?w" using bl(1) [of "[]"] by simp
      ultimately have w: "stmt ?w" using s0 bl(3) by (simp add: stmt_def)
      have ok': "state_ok (st\<lparr>prev_line := None\<rparr>)" using ok by (simp add: state_ok_def)
      show ?thesis
        using dispatch_ok [OF ok' w d'] by (simp add: pbuf_def buf_ok_def)
    qed
  qed
  then show "state_ok st'" and "last l = nl \<Longrightarrow> buf_ok (pbuf st')"
    and "vex_name (self_vex st') = vex_name (self_vex st)"
    by simp_all
qed

lemma parse_lines_ok:
  assumes "list_all phys ls" "list_all (\<lambda>l. last l = nl) (butlast ls)"
    and "state_ok st" "buf_ok (pbuf st)" "parse_lines st ls = Inr st'"
  shows "state_ok st' \<and> vex_name (self_vex st') = vex_name (self_vex st)"
  using assms
proof (induction ls arbitrary: st)
  case Nil
  then show ?case by simp
next
  case (Cons x xs)
  obtain st1 where s1: "parse_line st x = Inr st1" "parse_lines st1 xs = Inr st'"
    using Cons.prems(5) by (auto split: sum.splits)
  have px: "phys x" using Cons.prems(1) by simp
  note step = parse_line_ok [OF Cons.prems(3,4) px s1(1)]
  show ?case
  proof (cases "xs = []")
    case True
    then show ?thesis using step s1(2) by simp
  next
    case False
    then have "last x = nl" "list_all (\<lambda>l. last l = nl) (butlast xs)"
      using Cons.prems(2) by simp_all
    then show ?thesis
      using Cons.IH [of st1] Cons.prems(1) step s1(2) by simp
  qed
qed

lemma readlines_phys:
  "list_all phys (readlines s) \<and> list_all (\<lambda>l. last l = nl) (butlast (readlines s))"
proof (induction s)
  case Nil
  show ?case by simp
next
  case (Cons c cs)
  show ?case
  proof (cases "c = nl")
    case True
    then show ?thesis using Cons by (simp add: phys_def)
  next
    case False
    show ?thesis
    proof (cases "readlines cs")
      case Nil
      then show ?thesis using False by (simp add: phys_def)
    next
      case (Cons l ls)
      then have h: "phys l" "list_all phys ls" "list_all (\<lambda>l. last l = nl) (butlast (l # ls))"
        using Cons.IH by simp_all
      have "phys (c # l)" using h(1) False by (auto simp: phys_def)
      moreover have "last (c # l) = last l" using h(1) by (simp add: phys_def)
      ultimately show ?thesis using False Cons h(2,3) by (auto split: if_splits)

    qed
  qed
qed

lemma parsed_ok:
  assumes "Vex_init name T = Inr D"
  shows "vex_ok D" and "vex_name D = name"
proof -
  let ?init = "parser_init (Vex_empty name)"
  obtain st where st: "parse_lines ?init (readlines T) = Inr st"
    using assms by (auto simp: Vex_init_def from_file_def from_lines_def split: sum.splits)
  then have D: "D = seal st"
    using assms from_lines_seal [OF st] by (simp add: Vex_init_def from_file_def)
  have "state_ok ?init" "buf_ok (pbuf ?init)"
    by (simp_all add: state_ok_def parser_init_def Vex_empty_def vex_ok_def od_values_def
        buf_ok_def pbuf_def)
  then have "state_ok st \<and> vex_name (self_vex st) = vex_name (self_vex ?init)"
    using readlines_phys [of T] st by (intro parse_lines_ok [of "readlines T"]) simp_all
  then show "vex_ok D" and "vex_name D = name"
    unfolding D by (simp_all add: seal_ok seal_name parser_init_def Vex_empty_def)
qed

text \<open>
  Both conditions on a canonical document are needed for reading back what was written.
  In the first text the second comment takes the key \<^verbatim>\<open>comment-2\<close> of the parameter and
  replaces it, so the comments are stored in the order second, first, and are written and
  read back under exchanged keys. In the second text the section takes the key, and the
  place, of the first parameter, so the second parameter is written behind the section
  line and read back as a child of the section.
\<close>

lemma comment_key_taken_not_read_back:
  "(case Vex_init ''x'' ''comment-2 = x;\<newline>* a\<newline>* b\<newline>'' of
      Inl err \<Rightarrow> False
    | Inr D \<Rightarrow>
        \<not> vex_canonical D
        \<and> list_all (\<lambda>e. \<not> keyword_key e) (vex_all_entries D)
        \<and> Vex_init ''x'' (Vex_str D) \<noteq> Inr D)"
  by code_simp

lemma section_over_entry_not_read_back:
  "(case Vex_init ''x'' ''a = 1;\<newline>b = 2;\<newline>$a;\<newline>'' of
      Inl err \<Rightarrow> False
    | Inr D \<Rightarrow>
        \<not> entries_first (od_values (vex_sections D))
        \<and> list_all (\<lambda>e. \<not> keyword_key e) (vex_all_entries D)
        \<and> Vex_init ''x'' (Vex_str D) \<noteq> Inr D)"
  by code_simp


section \<open>Properties\<close>

subsection \<open>Entries\<close>

text \<open>
  Claim C4. \<^verbatim>\<open>Entry.entry_from_text\<close> splits a non-comment line at its first \<^verbatim>\<open>=\<close>
  only: for a line \<open>k @ ''='' @ r\<close> whose part \<open>k\<close> holds no \<^verbatim>\<open>=\<close>, the raw key is
  \<open>k\<close> and the raw value is all of \<open>r\<close>, whatever further \<^verbatim>\<open>=\<close> it holds. Both are
  stripped, and a last character \<^verbatim>\<open>;\<close> of the stripped value is dropped from the stored
  value. (The stored key of a variable is then cut after its \<^verbatim>\<open>$\<close>, and a value with a
  \<^verbatim>\<open>:\<close> is stored as a list.)
\<close>

theorem entry_from_text_first_equals:
  assumes "CHR ''='' \<notin> set k"
    and "strip (k @ ''='' @ r) = c # rest" and "c \<noteq> CHR ''*''"
  shows "entry_from_text (k @ ''='' @ r) =
     (let key = strip k; value = strip r
      in if value = [] then Inl IndexError
         else
           let value = (if last value = CHR '';'' then butlast value else value)
           in if str_in ''ref '' key then
                (if str_count CHR ''$'' key \<noteq> 1 then Inl AssertionError
                 else Inr \<lparr>entry_type = variable,
                            entry_key = Some (strip (str_split CHR ''$'' key ! 1)),
                            entry_value = (if CHR '':'' \<in> set value
                               then StrList (str_split CHR '':'' value) else Str value)\<rparr>)
              else Inr \<lparr>entry_type = parameter, entry_key = Some key,
                         entry_value = (if CHR '':'' \<in> set value
                            then StrList (str_split CHR '':'' value) else Str value)\<rparr>)"
  using assms(2,3) split_first_equals [OF assms(1), of r]
  by (simp add: entry_from_text_def Entry_init_def Let_def)

text \<open>The line \<^verbatim>\<open>  chan_def = &X=1 : 8.99 MHz ;  \<close>: the second \<^verbatim>\<open>=\<close> stays in the
  value.\<close>

theorem entry_from_text_first_equals_witness:
  "CHR ''='' \<notin> set ''  chan_def '' \<and>
   strip (''  chan_def '' @ ''='' @ '' &X=1 : 8.99 MHz ;  '')
     = CHR ''c'' # ''han_def = &X=1 : 8.99 MHz ;'' \<and>
   CHR ''c'' \<noteq> CHR ''*'' \<and>
   entry_from_text (''  chan_def '' @ ''='' @ '' &X=1 : 8.99 MHz ;  '') =
     Inr \<lparr>entry_type = parameter, entry_key = Some ''chan_def'',
          entry_value = StrList [''&X=1 '', '' 8.99 MHz '']\<rparr>"
proof -
  have h1: "CHR ''='' \<notin> set ''  chan_def ''" by simp
  have h2: "strip (''  chan_def '' @ ''='' @ '' &X=1 : 8.99 MHz ;  '')
      = CHR ''c'' # ''han_def = &X=1 : 8.99 MHz ;''"
    by code_simp
  have h3: "CHR ''c'' \<noteq> CHR ''*''" by simp
  have k: "strip ''  chan_def '' = ''chan_def''" by code_simp
  have v: "strip '' &X=1 : 8.99 MHz ;  '' = ''&X=1 : 8.99 MHz ;''" by code_simp
  have r: "\<not> str_in ''ref '' ''chan_def''" by code_simp
  have e: "entry_from_text (''  chan_def '' @ ''='' @ '' &X=1 : 8.99 MHz ;  '') =
     Inr \<lparr>entry_type = parameter, entry_key = Some ''chan_def'',
          entry_value = StrList [''&X=1 '', '' 8.99 MHz '']\<rparr>"
    unfolding entry_from_text_first_equals [OF h1 h2 h3] k v using r by (simp add: Let_def)
  from h1 h2 h3 e show ?thesis by blast
qed

text \<open>
  Claim C5. The value text \<open>v\<close> of a parsed entry (the stripped text after the first
  \<^verbatim>\<open>=\<close>, without its last \<^verbatim>\<open>;\<close>) is stored as the list of its \<^verbatim>\<open>:\<close>-separated
  pieces when it holds a \<^verbatim>\<open>:\<close>: one piece more than it holds \<^verbatim>\<open>:\<close>, so two at least, and
  joined by \<^verbatim>\<open>:\<close> they give \<open>v\<close> back. A value text with no \<^verbatim>\<open>:\<close> is stored as the
  string itself, not as a list.
\<close>

theorem entry_from_text_value_list:
  assumes "CHR ''='' \<notin> set k"
    and "strip (k @ ''='' @ r) = c # rest" and "c \<noteq> CHR ''*''"
    and "strip r \<noteq> []"
    and "v = (if last (strip r) = CHR '';'' then butlast (strip r) else strip r)"
    and "entry_from_text (k @ ''='' @ r) = Inr e"
  shows "if CHR '':'' \<in> set v
         then entry_value e = StrList (str_split CHR '':'' v)
            \<and> length (str_split CHR '':'' v) = str_count CHR '':'' v + 1
            \<and> 2 \<le> length (str_split CHR '':'' v)
            \<and> str_join '':'' (str_split CHR '':'' v) = v
         else entry_value e = Str v"
proof -
  have "entry_value e = (if CHR '':'' \<in> set v then StrList (str_split CHR '':'' v) else Str v)"
    using assms(2-6) split_first_equals [OF assms(1), of r]
    by (auto simp: entry_from_text_def Entry_init_def Let_def split: if_splits)
  then show ?thesis
    using str_split_ge2 [of "CHR '':''" v] str_join_split [of "CHR '':''" v]
    by (simp add: str_split_length)
qed

text \<open>The values \<^verbatim>\<open>a:b:c\<close> (three pieces) and \<^verbatim>\<open>abc\<close> (a string).\<close>

theorem entry_from_text_value_list_witness:
  "entry_from_text (''k '' @ ''='' @ '' a:b:c;'') =
     Inr \<lparr>entry_type = parameter, entry_key = Some ''k'',
          entry_value = StrList [''a'', ''b'', ''c'']\<rparr>
   \<and> entry_value \<lparr>entry_type = parameter, entry_key = Some ''k'',
          entry_value = StrList [''a'', ''b'', ''c'']\<rparr> = StrList (str_split CHR '':'' ''a:b:c'')
   \<and> length (str_split CHR '':'' ''a:b:c'') = 3
   \<and> entry_from_text (''k '' @ ''='' @ '' abc;'') =
     Inr \<lparr>entry_type = parameter, entry_key = Some ''k'', entry_value = Str ''abc''\<rparr>
   \<and> entry_value \<lparr>entry_type = parameter, entry_key = Some ''k'', entry_value = Str ''abc''\<rparr>
       = Str ''abc''"
proof -
  have k: "CHR ''='' \<notin> set ''k ''" by simp
  have c: "CHR ''k'' \<noteq> CHR ''*''" by simp
  have s1: "strip (''k '' @ ''='' @ '' a:b:c;'') = CHR ''k'' # '' = a:b:c;''" by code_simp
  have r1: "strip '' a:b:c;'' \<noteq> []" by code_simp
  have v1: "''a:b:c'' = (if last (strip '' a:b:c;'') = CHR '';'' then butlast (strip '' a:b:c;'')
       else strip '' a:b:c;'')"
    by code_simp
  have e1: "entry_from_text (''k '' @ ''='' @ '' a:b:c;'') =
     Inr \<lparr>entry_type = parameter, entry_key = Some ''k'',
          entry_value = StrList [''a'', ''b'', ''c'']\<rparr>"
    by code_simp
  have s2: "strip (''k '' @ ''='' @ '' abc;'') = CHR ''k'' # '' = abc;''" by code_simp
  have r2: "strip '' abc;'' \<noteq> []" by code_simp
  have v2: "''abc'' = (if last (strip '' abc;'') = CHR '';'' then butlast (strip '' abc;'')
       else strip '' abc;'')"
    by code_simp
  have e2: "entry_from_text (''k '' @ ''='' @ '' abc;'') =
     Inr \<lparr>entry_type = parameter, entry_key = Some ''k'', entry_value = Str ''abc''\<rparr>"
    by code_simp
  have m1: "CHR '':'' \<in> set ''a:b:c''" by simp
  have m2: "CHR '':'' \<notin> set ''abc''" by simp
  have l: "str_count CHR '':'' ''a:b:c'' + 1 = 3" by code_simp
  show ?thesis
    using entry_from_text_value_list [OF k s1 c r1 v1 e1]
      entry_from_text_value_list [OF k s2 c r2 v2 e2] e1 e2 m1 m2 l
    by (simp only: if_True if_False)
qed

text \<open>
  Claim C6, as the code has it. A comment cannot be built with a key, so the key of every
  comment that was built is \<^verbatim>\<open>None\<close>; the constructor checks nothing else and stores the
  type and the key it was given. Every entry that \<^verbatim>\<open>entry_from_text\<close> returns has the key
  \<^verbatim>\<open>None\<close> exactly when it is a comment.
\<close>

theorem entry_key_None_comment:
  "Entry_init comment (Some a_key) v0
     = Inl (ValueError ''key must be None for comment entries'')
   \<and> (Entry_init t k v = Inr e \<longrightarrow>
        entry_type e = t \<and> entry_key e = k \<and> (t = comment \<longrightarrow> k = None))
   \<and> (entry_from_text text = Inr e' \<longrightarrow> (entry_key e' = None) = (entry_type e' = comment))"
  by (auto simp: Entry_init_Inr Entry_init_def dest: entry_from_text_key)

theorem entry_key_None_comment_witness:
  "Entry_init comment None (Str '' a remark'')
     = Inr \<lparr>entry_type = comment, entry_key = None, entry_value = Str '' a remark''\<rparr>
   \<and> entry_from_text ''ref $IF = IF1;''
     = Inr \<lparr>entry_type = variable, entry_key = Some ''IF'', entry_value = Str ''IF1''\<rparr>
   \<and> (entry_key \<lparr>entry_type = variable, entry_key = Some ''IF'', entry_value = Str ''IF1''\<rparr> = None)
     = (entry_type \<lparr>entry_type = variable, entry_key = Some ''IF'', entry_value = Str ''IF1''\<rparr>
         = comment)"
proof -
  have a: "Entry_init comment None (Str '' a remark'')
     = Inr \<lparr>entry_type = comment, entry_key = None, entry_value = Str '' a remark''\<rparr>"
    by (simp add: Entry_init_def)
  have b: "entry_from_text ''ref $IF = IF1;''
     = Inr \<lparr>entry_type = variable, entry_key = Some ''IF'', entry_value = Str ''IF1''\<rparr>"
    by code_simp
  show ?thesis
    using a b
      entry_key_None_comment [of "''k''" "Str []" comment None "Str '' a remark''"
        "\<lparr>entry_type = comment, entry_key = None, entry_value = Str '' a remark''\<rparr>"
        "''ref $IF = IF1;''"
        "\<lparr>entry_type = variable, entry_key = Some ''IF'', entry_value = Str ''IF1''\<rparr>"]
    by blast
qed

text \<open>
  Claim C6 as stated fails: a parameter entry is built with the key \<^verbatim>\<open>None\<close>.
\<close>

theorem parameter_entry_without_key:
  "Entry_init parameter None (Str ''x'') =
     Inr \<lparr>entry_type = parameter, entry_key = None, entry_value = Str ''x''\<rparr>"
  by (simp add: Entry_init_def)


subsection \<open>Containers\<close>

text \<open>
  Claim C2, as the code has it. In a \<^verbatim>\<open>Definition\<close> or \<^verbatim>\<open>Scan\<close>, adding a non-comment
  entry under a key that is present turns a single stored entry into the list of the
  stored entry and the new one, and extends a stored list by the new entry at its end; the
  key keeps its position. In a \<^verbatim>\<open>Section\<close> and in the \<^verbatim>\<open>Vex\<close> document, adding under a
  key that is present replaces the stored item in place: no list is built.
\<close>

theorem duplicate_key_insertion:
  "(entry_type e \<noteq> comment \<and> entry_key e = k \<and> k \<notin> fst ` set pre \<longrightarrow>
      (def_entries d = pre @ (k, One e0) # post \<longrightarrow>
         def_entries (add_entry d e) = pre @ (k, Many [e0, e]) # post) \<and>
      (def_entries d = pre @ (k, Many es) # post \<longrightarrow>
         def_entries (add_entry d e) = pre @ (k, Many (es @ [e])) # post))
   \<and> (sec_child_key s c = k \<and> k \<notin> fst ` set pre_s
        \<and> sec_definitions s = pre_s @ (k, c0) # post_s \<longrightarrow>
          sec_definitions (add_definition s c) = pre_s @ (k, c) # post_s)
   \<and> (vex_child_key v a = k \<and> k \<notin> fst ` set pre_v
        \<and> vex_sections v = pre_v @ (k, a0) # post_v \<longrightarrow>
          vex_sections (add_section v a) = pre_v @ (k, a) # post_v)"
proof (intro conjI impI)
  assume "entry_type e \<noteq> comment \<and> entry_key e = k \<and> k \<notin> fst ` set pre"
    and "def_entries d = pre @ (k, One e0) # post"
  then show "def_entries (add_entry d e) = pre @ (k, Many [e0, e]) # post"
    by (simp add: add_entry_def od_get_present od_set_present)
next
  assume "entry_type e \<noteq> comment \<and> entry_key e = k \<and> k \<notin> fst ` set pre"
    and "def_entries d = pre @ (k, Many es) # post"
  then show "def_entries (add_entry d e) = pre @ (k, Many (es @ [e])) # post"
    by (simp add: add_entry_def od_get_present od_set_present)
next
  assume "sec_child_key s c = k \<and> k \<notin> fst ` set pre_s
      \<and> sec_definitions s = pre_s @ (k, c0) # post_s"
  then show "sec_definitions (add_definition s c) = pre_s @ (k, c) # post_s"
    by (auto simp: add_definition_def sec_child_key_def od_set_present Let_def
        split: sec_child.splits if_splits)
next
  assume "vex_child_key v a = k \<and> k \<notin> fst ` set pre_v
      \<and> vex_sections v = pre_v @ (k, a0) # post_v"
  then show "vex_sections (add_section v a) = pre_v @ (k, a) # post_v"
    by (auto simp: add_section_def vex_child_key_def od_set_present Let_def
        split: vex_child.splits if_splits)
qed

text \<open>
  Three entries \<^verbatim>\<open>ref $IF = ...\<close> added to a definition behind an entry \<^verbatim>\<open>x\<close>: the
  second makes a list of two, the third a list of three, at the second position. Two
  entries \<^verbatim>\<open>a\<close> added to a section and to a document: the second replaces the first.
\<close>

theorem duplicate_key_insertion_witness:
  "def_entries
     (add_entry
        \<lparr>def_class = Definition_class, def_name = ''D'',
         def_entries =
           [(Some ''x'', One \<lparr>entry_type = parameter, entry_key = Some ''x'', entry_value = Str ''0''\<rparr>),
            (Some ''IF'', One \<lparr>entry_type = variable, entry_key = Some ''IF'', entry_value = Str ''1''\<rparr>)],
         def_number_comments = 0\<rparr>
        \<lparr>entry_type = variable, entry_key = Some ''IF'', entry_value = Str ''2''\<rparr>)
     = [(Some ''x'', One \<lparr>entry_type = parameter, entry_key = Some ''x'', entry_value = Str ''0''\<rparr>)]
       @ (Some ''IF'',
          Many [\<lparr>entry_type = variable, entry_key = Some ''IF'', entry_value = Str ''1''\<rparr>,
                \<lparr>entry_type = variable, entry_key = Some ''IF'', entry_value = Str ''2''\<rparr>]) # []
   \<and> def_entries
     (add_entry
        \<lparr>def_class = Definition_class, def_name = ''D'',
         def_entries =
           [(Some ''x'', One \<lparr>entry_type = parameter, entry_key = Some ''x'', entry_value = Str ''0''\<rparr>),
            (Some ''IF'',
             Many [\<lparr>entry_type = variable, entry_key = Some ''IF'', entry_value = Str ''1''\<rparr>,
                   \<lparr>entry_type = variable, entry_key = Some ''IF'', entry_value = Str ''2''\<rparr>])],
         def_number_comments = 0\<rparr>
        \<lparr>entry_type = variable, entry_key = Some ''IF'', entry_value = Str ''3''\<rparr>)
     = [(Some ''x'', One \<lparr>entry_type = parameter, entry_key = Some ''x'', entry_value = Str ''0''\<rparr>)]
       @ (Some ''IF'',
          Many ([\<lparr>entry_type = variable, entry_key = Some ''IF'', entry_value = Str ''1''\<rparr>,
                 \<lparr>entry_type = variable, entry_key = Some ''IF'', entry_value = Str ''2''\<rparr>]
                @ [\<lparr>entry_type = variable, entry_key = Some ''IF'', entry_value = Str ''3''\<rparr>])) # []
   \<and> sec_definitions
     (add_definition
        \<lparr>sec_name = ''S'',
         sec_definitions =
           [(Some ''a'', Sec_Entry \<lparr>entry_type = parameter, entry_key = Some ''a'', entry_value = Str ''1''\<rparr>)],
         sec_number_comments = 0\<rparr>
        (Sec_Entry \<lparr>entry_type = parameter, entry_key = Some ''a'', entry_value = Str ''2''\<rparr>))
     = [] @ (Some ''a'',
          Sec_Entry \<lparr>entry_type = parameter, entry_key = Some ''a'', entry_value = Str ''2''\<rparr>) # []
   \<and> vex_sections
     (add_section
        \<lparr>vex_name = ''V'',
         vex_sections =
           [(Some ''a'', Vex_Entry \<lparr>entry_type = parameter, entry_key = Some ''a'', entry_value = Str ''1''\<rparr>)],
         vex_number_comments = 0\<rparr>
        (Vex_Entry \<lparr>entry_type = parameter, entry_key = Some ''a'', entry_value = Str ''2''\<rparr>))
     = [] @ (Some ''a'',
          Vex_Entry \<lparr>entry_type = parameter, entry_key = Some ''a'', entry_value = Str ''2''\<rparr>) # []"
  (is "?A \<and> ?B \<and> ?C \<and> ?D")
proof -
  let ?x = "(Some ''x'', One \<lparr>entry_type = parameter, entry_key = Some ''x'', entry_value = Str ''0''\<rparr>)"
  let ?e1 = "\<lparr>entry_type = variable, entry_key = Some ''IF'', entry_value = Str ''1''\<rparr>"
  let ?e2 = "\<lparr>entry_type = variable, entry_key = Some ''IF'', entry_value = Str ''2''\<rparr>"
  let ?e3 = "\<lparr>entry_type = variable, entry_key = Some ''IF'', entry_value = Str ''3''\<rparr>"
  let ?a1 = "\<lparr>entry_type = parameter, entry_key = Some ''a'', entry_value = Str ''1''\<rparr>"
  let ?a2 = "\<lparr>entry_type = parameter, entry_key = Some ''a'', entry_value = Str ''2''\<rparr>"
  let ?d1 = "\<lparr>def_class = Definition_class, def_name = ''D'',
         def_entries = [?x, (Some ''IF'', One ?e1)], def_number_comments = 0\<rparr>"
  let ?d2 = "\<lparr>def_class = Definition_class, def_name = ''D'',
         def_entries = [?x, (Some ''IF'', Many [?e1, ?e2])], def_number_comments = 0\<rparr>"
  let ?s = "\<lparr>sec_name = ''S'', sec_definitions = [(Some ''a'', Sec_Entry ?a1)],
         sec_number_comments = 0\<rparr>"
  let ?v = "\<lparr>vex_name = ''V'', vex_sections = [(Some ''a'', Vex_Entry ?a1)],
         vex_number_comments = 0\<rparr>"
  have a: ?A
    using duplicate_key_insertion [of ?e2 "Some ''IF''" "[?x]" ?d1 ?e1 "[]"]
    by simp
  have b: ?B
    using duplicate_key_insertion [of ?e3 "Some ''IF''" "[?x]" ?d2 _ _ "[?e1, ?e2]"]
    by simp
  have c: ?C
    using duplicate_key_insertion [of _ _ _ _ _ _ _ ?s "Sec_Entry ?a2" "[]" "Sec_Entry ?a1" "[]"]
    by (simp add: sec_child_key_def)
  have d: ?D
    using duplicate_key_insertion [of _ _ _ _ _ _ _ _ _ _ _ _ ?v "Vex_Entry ?a2" "[]" "Vex_Entry ?a1" "[]"]
    by (simp add: vex_child_key_def)
  from a b c d show ?thesis by blast
qed

text \<open>
  Claim C2 as stated fails for a section: after two insertions under the key \<^verbatim>\<open>a\<close> the
  section stores the second entry alone, not a sequence of the two.
\<close>

theorem section_duplicate_key_replaces:
  "add_definition
     (add_definition (Section_init ''S'')
        (Sec_Entry \<lparr>entry_type = parameter, entry_key = Some ''a'', entry_value = Str ''1''\<rparr>))
     (Sec_Entry \<lparr>entry_type = parameter, entry_key = Some ''a'', entry_value = Str ''2''\<rparr>)
   = \<lparr>sec_name = ''S'',
      sec_definitions =
        [(Some ''a'',
          Sec_Entry \<lparr>entry_type = parameter, entry_key = Some ''a'', entry_value = Str ''2''\<rparr>)],
      sec_number_comments = 0\<rparr>"
  by (simp add: add_definition_def Section_init_def)


subsection \<open>Parsing\<close>



text \<open>
  Claim C10. A file with a physical line that is empty or all whitespace does not parse:
  \<^verbatim>\<open>from_file\<close> raises. When the lines before the blank one are parsed without error,
  the blank line itself raises \<^verbatim>\<open>IndexError\<close>, which is the result of the parse.
\<close>

theorem blank_line_fails:
  assumes "readlines contents = pre @ l # post" and "strip l = []"
  shows "(\<exists>err. from_file v contents = Inl err)
       \<and> (\<forall>st. parse_lines (parser_init v) pre = Inr st \<longrightarrow>
             parse_line st l = Inl IndexError \<and> from_file v contents = Inl IndexError)"
  unfolding from_file_def from_lines_def assms(1) parse_lines_append
  by (auto simp: parse_line_blank [OF assms(2)] split: sum.splits)

text \<open>An entry followed by an empty line.\<close>

theorem blank_line_fails_witness:
  "readlines ''a = 1;\<newline>\<newline>'' = [''a = 1;\<newline>''] @ ''\<newline>'' # []
   \<and> strip ''\<newline>'' = []
   \<and> from_file (Vex_empty ''x'') ''a = 1;\<newline>\<newline>'' = Inl IndexError"
proof -
  have r: "readlines ''a = 1;\<newline>\<newline>'' = [''a = 1;\<newline>''] @ ''\<newline>'' # []"
    by code_simp
  have s: "strip ''\<newline>'' = []" by code_simp
  have p: "parse_lines (parser_init (Vex_empty ''x'')) [''a = 1;\<newline>'']
      = Inr \<lparr>self_vex =
               \<lparr>vex_name = ''x'',
                vex_sections =
                  [(Some ''a'',
                    Vex_Entry \<lparr>entry_type = parameter, entry_key = Some ''a'',
                               entry_value = Str ''1''\<rparr>)],
                vex_number_comments = 0\<rparr>,
             prev_line = None, current_section = None, current_definition = None\<rparr>"
    by code_simp
  show ?thesis
    using blank_line_fails [OF r s, of "Vex_empty ''x''"] r s p by blast
qed

subsection \<open>Writing a file\<close>

text \<open>
  Claim C9 does not hold of the code. With \<^verbatim>\<open>overwrite=False\<close>, \<^verbatim>\<open>to_file\<close> raises
  \<^verbatim>\<open>UnboundLocalError\<close> for every document, file system and file name, whether the
  destination exists or not: never \<^verbatim>\<open>FileExistsError\<close>. Nothing is written.
\<close>

theorem to_file_no_overwrite_raises:
  "to_file v files filename False = Inl UnboundLocalError"
  by (simp add: to_file_def)


text \<open>
  Claim C7. A sequence of insertions into a \<^verbatim>\<open>Definition\<close> (or \<^verbatim>\<open>Scan\<close>), a
  \<^verbatim>\<open>Section\<close> or a \<^verbatim>\<open>Vex\<close> document leaves the keys in first-insertion order: every
  insertion keeps the keys it finds in their places and puts a key that is new at the
  end, whatever it does to the value stored under a key that is present. The keys stay
  distinct, and the container is rendered by rendering, in the order of its keys, what is
  stored under each key.
\<close>

theorem keys_first_insertion_order:
  "od_keys (def_entries (foldl add_entry d es))
     = foldl key_seen (od_keys (def_entries d)) (def_entry_keys (def_number_comments d) es)
   \<and> od_keys (sec_definitions (foldl add_definition s cs))
     = foldl key_seen (od_keys (sec_definitions s)) (sec_child_keys (sec_number_comments s) cs)
   \<and> od_keys (vex_sections (foldl add_section v as))
     = foldl key_seen (od_keys (vex_sections v)) (vex_child_keys (vex_number_comments v) as)
   \<and> (distinct (od_keys (def_entries d)) \<longrightarrow>
        distinct (od_keys (def_entries (foldl add_entry d es)))
        \<and> Definition_str d =
            (case def_class d of Definition_class \<Rightarrow> ''def '' | Scan_class \<Rightarrow> ''scan '')
            @ def_name d @ '';\<newline>''
            @ concat (map (\<lambda>k. slot_str (the (od_get (def_entries d) k)))
                (od_keys (def_entries d)))
            @ (case def_class d of Definition_class \<Rightarrow> ''enddef;\<newline>''
               | Scan_class \<Rightarrow> ''endscan;\<newline>''))
   \<and> (distinct (od_keys (sec_definitions s)) \<longrightarrow>
        distinct (od_keys (sec_definitions (foldl add_definition s cs)))
        \<and> Section_str s =
            ''$'' @ sec_name s @ '';\<newline>''
            @ concat (map (\<lambda>k. sec_child_str (the (od_get (sec_definitions s) k)))
                (od_keys (sec_definitions s))))
   \<and> (distinct (od_keys (vex_sections v)) \<longrightarrow>
        distinct (od_keys (vex_sections (foldl add_section v as)))
        \<and> Vex_str v =
            concat (map (\<lambda>k. vex_child_str (the (od_get (vex_sections v) k)))
                (od_keys (vex_sections v))))"
proof (intro conjI impI)
  show "od_keys (def_entries (foldl add_entry d es))
     = foldl key_seen (od_keys (def_entries d)) (def_entry_keys (def_number_comments d) es)"
    by (rule foldl_add_entry_keys)
  show "od_keys (sec_definitions (foldl add_definition s cs))
     = foldl key_seen (od_keys (sec_definitions s)) (sec_child_keys (sec_number_comments s) cs)"
    by (rule foldl_add_definition_keys)
  show "od_keys (vex_sections (foldl add_section v as))
     = foldl key_seen (od_keys (vex_sections v)) (vex_child_keys (vex_number_comments v) as)"
    by (rule foldl_add_section_keys)
next
  assume "distinct (od_keys (def_entries d))"
  then show "distinct (od_keys (def_entries (foldl add_entry d es)))"
    by (simp add: foldl_add_entry_keys key_seen_distinct)
next
  assume "distinct (od_keys (def_entries d))"
  then show "Definition_str d =
            (case def_class d of Definition_class \<Rightarrow> ''def '' | Scan_class \<Rightarrow> ''scan '')
            @ def_name d @ '';\<newline>''
            @ concat (map (\<lambda>k. slot_str (the (od_get (def_entries d) k)))
                (od_keys (def_entries d)))
            @ (case def_class d of Definition_class \<Rightarrow> ''enddef;\<newline>''
               | Scan_class \<Rightarrow> ''endscan;\<newline>'')"
    by (simp add: Definition_str_def od_values_by_keys comp_def split: def_class.splits)
next
  assume "distinct (od_keys (sec_definitions s))"
  then show "distinct (od_keys (sec_definitions (foldl add_definition s cs)))"
    by (simp add: foldl_add_definition_keys key_seen_distinct)
next
  assume "distinct (od_keys (sec_definitions s))"
  then show "Section_str s =
            ''$'' @ sec_name s @ '';\<newline>''
            @ concat (map (\<lambda>k. sec_child_str (the (od_get (sec_definitions s) k)))
                (od_keys (sec_definitions s)))"
    by (simp add: Section_str_def od_values_by_keys comp_def)
next
  assume "distinct (od_keys (vex_sections v))"
  then show "distinct (od_keys (vex_sections (foldl add_section v as)))"
    by (simp add: foldl_add_section_keys key_seen_distinct)
next
  assume "distinct (od_keys (vex_sections v))"
  then show "Vex_str v =
            concat (map (\<lambda>k. vex_child_str (the (od_get (vex_sections v) k)))
                (od_keys (vex_sections v)))"
    by (simp add: Vex_str_def od_values_by_keys comp_def)
qed


text \<open>
  The entries \<^verbatim>\<open>a = 1\<close>, a comment, \<^verbatim>\<open>b = 2\<close>, \<^verbatim>\<open>a = 3\<close> added to an empty
  definition: the keys are \<^verbatim>\<open>a\<close>, \<^verbatim>\<open>comment-1\<close>, \<^verbatim>\<open>b\<close>, and the text has both
  entries \<^verbatim>\<open>a\<close> first.
\<close>

theorem keys_first_insertion_order_witness:
  "od_keys (def_entries (foldl add_entry (Definition_init ''D'')
      [\<lparr>entry_type = parameter, entry_key = Some ''a'', entry_value = Str ''1''\<rparr>,
       \<lparr>entry_type = comment, entry_key = None, entry_value = Str '' c''\<rparr>,
       \<lparr>entry_type = parameter, entry_key = Some ''b'', entry_value = Str ''2''\<rparr>,
       \<lparr>entry_type = parameter, entry_key = Some ''a'', entry_value = Str ''3''\<rparr>]))
     = [Some ''a'', Some ''comment-1'', Some ''b'']
   \<and> distinct [Some ''a'', Some ''comment-1'', Some ''b'']
   \<and> Definition_str (foldl add_entry (Definition_init ''D'')
      [\<lparr>entry_type = parameter, entry_key = Some ''a'', entry_value = Str ''1''\<rparr>,
       \<lparr>entry_type = comment, entry_key = None, entry_value = Str '' c''\<rparr>,
       \<lparr>entry_type = parameter, entry_key = Some ''b'', entry_value = Str ''2''\<rparr>,
       \<lparr>entry_type = parameter, entry_key = Some ''a'', entry_value = Str ''3''\<rparr>])
     = ''def D;\<newline>     a = 1;\<newline>     a = 3;\<newline>* c\<newline>     b = 2;\<newline>enddef;\<newline>''"
proof -
  let ?es = "[\<lparr>entry_type = parameter, entry_key = Some ''a'', entry_value = Str ''1''\<rparr>,
       \<lparr>entry_type = comment, entry_key = None, entry_value = Str '' c''\<rparr>,
       \<lparr>entry_type = parameter, entry_key = Some ''b'', entry_value = Str ''2''\<rparr>,
       \<lparr>entry_type = parameter, entry_key = Some ''a'', entry_value = Str ''3''\<rparr>]"
  let ?d = "foldl add_entry (Definition_init ''D'') ?es"
  have d0: "distinct (od_keys (def_entries (Definition_init ''D'')))"
    by (simp add: Definition_init_def od_keys_def)
  have ks: "foldl key_seen (od_keys (def_entries (Definition_init ''D'')))
       (def_entry_keys (def_number_comments (Definition_init ''D'')) ?es)
     = [Some ''a'', Some ''comment-1'', Some ''b'']"
    by code_simp
  from keys_first_insertion_order [of "Definition_init ''D''" ?es]
  have k: "od_keys (def_entries ?d) = [Some ''a'', Some ''comment-1'', Some ''b'']"
    and dd: "distinct (od_keys (def_entries ?d))"
    using d0 ks by simp_all
  have r: "(case def_class ?d of Definition_class \<Rightarrow> ''def '' | Scan_class \<Rightarrow> ''scan '')
            @ def_name ?d @ '';\<newline>''
            @ concat (map (\<lambda>k. slot_str (the (od_get (def_entries ?d) k)))
                [Some ''a'', Some ''comment-1'', Some ''b''])
            @ (case def_class ?d of Definition_class \<Rightarrow> ''enddef;\<newline>''
               | Scan_class \<Rightarrow> ''endscan;\<newline>'')
     = ''def D;\<newline>     a = 1;\<newline>     a = 3;\<newline>* c\<newline>     b = 2;\<newline>enddef;\<newline>''"
    by code_simp
  from keys_first_insertion_order [of ?d "[]"] dd
  have "Definition_str ?d =
      (case def_class ?d of Definition_class \<Rightarrow> ''def '' | Scan_class \<Rightarrow> ''scan '')
            @ def_name ?d @ '';\<newline>''
            @ concat (map (\<lambda>k. slot_str (the (od_get (def_entries ?d) k)))
                (od_keys (def_entries ?d)))
            @ (case def_class ?d of Definition_class \<Rightarrow> ''enddef;\<newline>''
               | Scan_class \<Rightarrow> ''endscan;\<newline>'')"
    by blast
  then have s: "Definition_str ?d
     = ''def D;\<newline>     a = 1;\<newline>     a = 3;\<newline>* c\<newline>     b = 2;\<newline>enddef;\<newline>''"
    unfolding k r .
  from k dd s show ?thesis unfolding k by blast
qed


subsection \<open>Comment lines and the continuation buffer\<close>

text \<open>
  Claim C3, as the code has it. A comment line that is read while the continuation buffer
  holds text is stored at once (in the open definition, else in the open section, else
  in the document), and the buffer is left as it was: the next line that is no comment
  and holds the terminator is dispatched with the buffered text in front of it.
\<close>

theorem comment_line_keeps_buffer:
  assumes "prev_line st = Some buf" and "strip vexline = CHR ''*'' # rest"
    and "e = \<lparr>entry_type = comment, entry_key = None, entry_value = Str rest\<rparr>"
  shows "parse_line st vexline = Inr (store_entry st e)
       \<and> store_entry st e =
           (case current_definition st of
              Some d \<Rightarrow> st\<lparr>current_definition := Some (add_entry d e)\<rparr>
            | None \<Rightarrow>
                (case current_section st of
                   Some s \<Rightarrow> st\<lparr>current_section := Some (add_definition s (Sec_Entry e))\<rparr>
                 | None \<Rightarrow> st\<lparr>self_vex := add_section (self_vex st) (Vex_Entry e)\<rparr>))
       \<and> prev_line (store_entry st e) = Some buf
       \<and> (\<forall>l. completes_line l \<longrightarrow>
             parse_line (store_entry st e) l =
               dispatch ((store_entry st e)\<lparr>prev_line := None\<rparr>) (strip (buf @ l)))"
proof -
  have p: "prev_line (store_entry st e) = Some buf"
    using assms(1) by (simp add: store_entry_def split: option.splits)
  have "parse_line st vexline = Inr (store_entry st e)"
    using assms(2,3) by (simp add: parse_line_def entry_from_text_def Entry_init_def)
  moreover have "\<forall>l. completes_line l \<longrightarrow>
      parse_line (store_entry st e) l =
        dispatch ((store_entry st e)\<lparr>prev_line := None\<rparr>) (strip (buf @ l))"
    using p by (auto simp: completes_line_def parse_line_def split: list.splits)
  ultimately show ?thesis
    using p by (simp add: store_entry_def)
qed

text \<open>
  The lines \<^verbatim>\<open>a = b\<close>, \<^verbatim>\<open>* c\<close>, \<^verbatim>\<open>d;\<close>: after the comment the buffer still holds
  the first line, and the third line completes the entry \<^verbatim>\<open>a\<close> with it.
\<close>

theorem comment_line_keeps_buffer_witness:
  "parse_line
     \<lparr>self_vex = Vex_empty ''x'', prev_line = Some ''a = b\<newline>'', current_section = None,
      current_definition = None\<rparr> ''* c\<newline>''
   = Inr \<lparr>self_vex =
            \<lparr>vex_name = ''x'',
             vex_sections =
               [(Some ''comment-1'',
                 Vex_Entry \<lparr>entry_type = comment, entry_key = None, entry_value = Str '' c''\<rparr>)],
             vex_number_comments = 1\<rparr>,
          prev_line = Some ''a = b\<newline>'', current_section = None, current_definition = None\<rparr>
   \<and> parse_line
     \<lparr>self_vex =
        \<lparr>vex_name = ''x'',
         vex_sections =
           [(Some ''comment-1'',
             Vex_Entry \<lparr>entry_type = comment, entry_key = None, entry_value = Str '' c''\<rparr>)],
         vex_number_comments = 1\<rparr>,
      prev_line = Some ''a = b\<newline>'', current_section = None, current_definition = None\<rparr>
     ''d;\<newline>''
   = Inr \<lparr>self_vex =
            \<lparr>vex_name = ''x'',
             vex_sections =
               [(Some ''comment-1'',
                 Vex_Entry \<lparr>entry_type = comment, entry_key = None, entry_value = Str '' c''\<rparr>),
                (Some ''a'',
                 Vex_Entry \<lparr>entry_type = parameter, entry_key = Some ''a'',
                            entry_value = Str ''b\<newline>d''\<rparr>)],
             vex_number_comments = 1\<rparr>,
          prev_line = None, current_section = None, current_definition = None\<rparr>"
proof -
  let ?st = "\<lparr>self_vex = Vex_empty ''x'', prev_line = Some ''a = b\<newline>'',
      current_section = None, current_definition = None\<rparr>"
  let ?e = "\<lparr>entry_type = comment, entry_key = None, entry_value = Str '' c''\<rparr>"
  let ?st' = "\<lparr>self_vex =
        \<lparr>vex_name = ''x'', vex_sections = [(Some ''comment-1'', Vex_Entry ?e)],
         vex_number_comments = 1\<rparr>,
      prev_line = Some ''a = b\<newline>'', current_section = None, current_definition = None\<rparr>"
  have h1: "prev_line ?st = Some ''a = b\<newline>''" by simp
  have h2: "strip ''* c\<newline>'' = CHR ''*'' # '' c''" by code_simp
  have s: "store_entry ?st ?e = ?st'" by code_simp
  have c: "completes_line ''d;\<newline>''" by code_simp
  have d: "dispatch (?st'\<lparr>prev_line := None\<rparr>) (strip (''a = b\<newline>'' @ ''d;\<newline>''))
      = Inr \<lparr>self_vex =
            \<lparr>vex_name = ''x'',
             vex_sections =
               [(Some ''comment-1'', Vex_Entry ?e),
                (Some ''a'',
                 Vex_Entry \<lparr>entry_type = parameter, entry_key = Some ''a'',
                            entry_value = Str ''b\<newline>d''\<rparr>)],
             vex_number_comments = 1\<rparr>,
          prev_line = None, current_section = None, current_definition = None\<rparr>"
    by code_simp
  from comment_line_keeps_buffer [OF h1 h2 refl]
  have "parse_line ?st ''* c\<newline>'' = Inr (store_entry ?st ?e)"
    and "\<forall>l. completes_line l \<longrightarrow>
      parse_line (store_entry ?st ?e) l =
        dispatch ((store_entry ?st ?e)\<lparr>prev_line := None\<rparr>) (strip (''a = b\<newline>'' @ l))"
    by blast+
  then show ?thesis using c d unfolding s by simp
qed

text \<open>
  Claim C3 as stated fails: in the file \<^verbatim>\<open>a = b\<close>, \<^verbatim>\<open>* c\<close>, \<^verbatim>\<open>d;\<close> the text
  buffered before the comment is not discarded. It is still pending after the comment
  line, and it ends up in the value of the entry \<^verbatim>\<open>a\<close>.
\<close>

theorem comment_line_buffer_not_discarded:
  "parse_lines (parser_init (Vex_empty ''x'')) [''a = b\<newline>'', ''* c\<newline>'']
   = Inr \<lparr>self_vex =
            \<lparr>vex_name = ''x'',
             vex_sections =
               [(Some ''comment-1'',
                 Vex_Entry \<lparr>entry_type = comment, entry_key = None, entry_value = Str '' c''\<rparr>)],
             vex_number_comments = 1\<rparr>,
          prev_line = Some ''a = b\<newline>'', current_section = None, current_definition = None\<rparr>
   \<and> from_file (Vex_empty ''x'') ''a = b\<newline>* c\<newline>d;\<newline>''
   = Inr \<lparr>vex_name = ''x'',
          vex_sections =
            [(Some ''comment-1'',
              Vex_Entry \<lparr>entry_type = comment, entry_key = None, entry_value = Str '' c''\<rparr>),
             (Some ''a'',
              Vex_Entry \<lparr>entry_type = parameter, entry_key = Some ''a'',
                         entry_value = Str ''b\<newline>d''\<rparr>)],
          vex_number_comments = 1\<rparr>"
  by code_simp

subsection \<open>Writing and reading back\<close>

text \<open>
  Claim C1, as the code has it. Let \<open>D\<close> be the document that parsing a text \<open>T\<close> builds.
  If \<open>D\<close> is canonical (adding the children of each of its containers, in the order in
  which they are stored, to the empty container gives the container back, and the entries
  at the top level come before the sections) and no parameter of \<open>D\<close> has the key
  \<^verbatim>\<open>def\<close> or \<^verbatim>\<open>scan\<close>, then parsing the text that the serializer writes for \<open>D\<close> gives
  \<open>D\<close> itself: the same keys in the same order, the same kinds, the same values and the
  same comment counters. The text \<open>T\<close> is arbitrary, and the written text need not be
  \<open>T\<close>.
\<close>

theorem written_document_reads_back:
  assumes "Vex_init name T = Inr D"
    and "vex_canonical D"
    and "list_all (\<lambda>e. \<not> keyword_key e) (vex_all_entries D)"
  shows "Vex_init name (Vex_str D) = Inr D"
  using vex_written_read [OF parsed_ok(1) [OF assms(1)] assms(2,3)] parsed_ok(2) [OF assms(1)]
  by (simp add: Vex_init_def)

text \<open>
  The property at the example: the text parses to the example document, which is
  canonical and has no parameter named \<^verbatim>\<open>def\<close> or \<^verbatim>\<open>scan\<close>; the text written for the
  document differs from the text that was read, and parses to the same document.
\<close>

theorem written_document_reads_back_witness:
  "Vex_init ''x'' example_text = Inr example_document
   \<and> vex_canonical example_document
   \<and> list_all (\<lambda>e. \<not> keyword_key e) (vex_all_entries example_document)
   \<and> Vex_str example_document \<noteq> example_text
   \<and> Vex_init ''x'' (Vex_str example_document) = Inr example_document"
proof -
  have h1: "Vex_init ''x'' example_text = Inr example_document"
    by code_simp
  have h2: "vex_canonical example_document"
    by code_simp
  have h3: "list_all (\<lambda>e. \<not> keyword_key e) (vex_all_entries example_document)"
    by code_simp
  have h4: "Vex_str example_document \<noteq> example_text"
    by code_simp
  from written_document_reads_back [OF h1 h2 h3] h1 h2 h3 h4 show ?thesis
    by simp
qed

text \<open>
  Claim C1 as stated, for every document built by parsing, does not hold. The one-line
  text \<^verbatim>\<open>def= x;\<close> parses to a document with the parameter \<^verbatim>\<open>def\<close>. The document is
  written as \<^verbatim>\<open>def = x;\<close>, and that text parses to the empty document: the line now
  starts with \<^verbatim>\<open>def \<close> and opens a definition, which is never closed.
\<close>

theorem roundtrip_fails_key_def:
  "Vex_init ''x'' ''def= x;\<newline>''
     = Inr \<lparr>vex_name = ''x'',
            vex_sections =
              [(Some ''def'',
                Vex_Entry \<lparr>entry_type = parameter, entry_key = Some ''def'',
                           entry_value = Str ''x''\<rparr>)],
            vex_number_comments = 0\<rparr>
   \<and> Vex_str \<lparr>vex_name = ''x'',
            vex_sections =
              [(Some ''def'',
                Vex_Entry \<lparr>entry_type = parameter, entry_key = Some ''def'',
                           entry_value = Str ''x''\<rparr>)],
            vex_number_comments = 0\<rparr> = ''def = x;\<newline>''
   \<and> Vex_init ''x'' ''def = x;\<newline>''
     = Inr \<lparr>vex_name = ''x'', vex_sections = [], vex_number_comments = 0\<rparr>"
  by code_simp

end
